theory Spec2Isabelle
  imports Main
begin

section \<open>JavaScript strings and arrays\<close>

text \<open>
  A JavaScript string is a sequence of code units; a \<^typ>\<open>char\<close> stands for one code unit
  (the range below 256), so \<^const>\<open>length\<close> counts what \<^verbatim>\<open>.length\<close> counts.
\<close>

definition dq :: char where
  "dq = CHR 0x22"

definition nl :: char where
  "nl = CHR 0x0A"

definition comma :: char where
  "comma = CHR '',''"

text \<open>
  \<^verbatim>\<open>String.prototype.trim\<close> removes white space and line terminators from both ends:
  TAB, LF, VT, FF, CR, SP and NBSP are the ones in the range of \<^typ>\<open>char\<close>.
\<close>

definition isWs :: "char \<Rightarrow> bool" where
  "isWs c = (c \<in> {CHR 0x09, CHR 0x0A, CHR 0x0B, CHR 0x0C, CHR 0x0D, CHR 0x20, CHR 0xA0})"

definition trim :: "string \<Rightarrow> string" where
  "trim s = rev (dropWhile isWs (rev (dropWhile isWs s)))"

text \<open>\<^verbatim>\<open>Array.prototype.join\<close>: the separator goes between two elements only.\<close>

fun join :: "string \<Rightarrow> string list \<Rightarrow> string" where
  "join sep [] = []"
| "join sep [x] = x"
| "join sep (x # y # ys) = x @ sep @ join sep (y # ys)"

text \<open>
  \<^verbatim>\<open>s.substring(a, b)\<close> for non-negative arguments: both are clamped to the length and
  swapped when the first is the larger.
\<close>

definition substring :: "string \<Rightarrow> nat \<Rightarrow> nat \<Rightarrow> string" where
  "substring s a b =
     (let a' = min a (length s); b' = min b (length s);
          lo = min a' b'; hi = max a' b'
      in take (hi - lo) (drop lo s))"

definition startsWith :: "string \<Rightarrow> string \<Rightarrow> bool" where
  "startsWith s p = (take (length p) s = p)"

definition endsWith :: "string \<Rightarrow> string \<Rightarrow> bool" where
  "endsWith s p = (length p \<le> length s \<and> drop (length s - length p) s = p)"

section \<open>The question record (types.ts)\<close>

text \<open>
  \<^verbatim>\<open>QuestionData\<close>: \<^verbatim>\<open>id\<close>, \<^verbatim>\<open>Pregunta\<close> and \<^verbatim>\<open>'Opci\'on correcta 1'\<close> are strings, the other six
  fields are optional (\<^verbatim>\<open>string | undefined\<close>, here \<^const>\<open>None\<close> for \<^verbatim>\<open>undefined\<close>).
\<close>

record QuestionData =
  qid :: string
  Pregunta :: string
  Opcion_correcta_1 :: string
  Opcion_Correcta_2 :: "string option"
  Opcion_Correcta_3 :: "string option"
  Opcion_Incorrecta_1 :: "string option"
  Opcion_Incorrecta_2 :: "string option"
  Opcion_Incorrecta_3 :: "string option"
  Explicacion :: "string option"

definition o_acute :: char where
  "o_acute = CHR 0xF3"

definition CSV_HEADERS :: "string list" where
  "CSV_HEADERS =
     [''Pregunta'',
      ''Opci'' @ [o_acute] @ ''n correcta 1'',
      ''Opci'' @ [o_acute] @ ''n Correcta 2'',
      ''Opci'' @ [o_acute] @ ''n Correcta 3'',
      ''Opci'' @ [o_acute] @ ''n Incorrecta 1'',
      ''Opci'' @ [o_acute] @ ''n Incorrecta 2'',
      ''Opci'' @ [o_acute] @ ''n Incorrecta 3'',
      ''Explicaci'' @ [o_acute] @ ''n'']"

section \<open>CSV export and the line parser (utils/csvUtils)\<close>

text \<open>\<^verbatim>\<open>stringField.replace(/"/g, '""')\<close>: every double quote is doubled.\<close>

fun doubleQuotes :: "string \<Rightarrow> string" where
  "doubleQuotes [] = []"
| "doubleQuotes (c # cs) = (if c = dq then [dq, dq] else [c]) @ doubleQuotes cs"

text \<open>
  \<^verbatim>\<open>escapeCsvField\<close>: \<^verbatim>\<open>undefined\<close>, \<^verbatim>\<open>null\<close> and the empty string give the empty field; a
  value with a comma, a double quote or a newline is wrapped in double quotes.
\<close>

definition escapeCsvField :: "string option \<Rightarrow> string" where
  "escapeCsvField fieldValue =
     (case fieldValue of
        None \<Rightarrow> []
      | Some stringField \<Rightarrow>
          if stringField = [] then []
          else if comma \<in> set stringField \<or> dq \<in> set stringField \<or> nl \<in> set stringField
            then [dq] @ doubleQuotes stringField @ [dq]
          else stringField)"

text \<open>The eight exported fields of a question, in the order of the header.\<close>

definition csvFields :: "QuestionData \<Rightarrow> string option list" where
  "csvFields q =
     [Some (Pregunta q), Some (Opcion_correcta_1 q),
      Opcion_Correcta_2 q, Opcion_Correcta_3 q,
      Opcion_Incorrecta_1 q, Opcion_Incorrecta_2 q, Opcion_Incorrecta_3 q,
      Explicacion q]"

definition headerRow :: string where
  "headerRow = join [comma] CSV_HEADERS"

definition dataRows :: "QuestionData list \<Rightarrow> string list" where
  "dataRows questions = map (\<lambda>q. join [comma] (map escapeCsvField (csvFields q))) questions"

definition generateCsvString :: "QuestionData list \<Rightarrow> string" where
  "generateCsvString questions = join [nl] (headerRow # dataRows questions)"





text \<open>
  The layout of the export in the words of its description: the header line, then one line
  per question, each of eight fields; a field is quoted, with its double quotes doubled,
  exactly when it holds a comma, a double quote or a newline, and is empty when the value
  is absent or empty. (\<^verbatim>\<open>null\<close> and \<^verbatim>\<open>undefined\<close> are both \<^const>\<open>None\<close>.)
\<close>

definition specField :: "string option \<Rightarrow> string" where
  "specField v =
     (case v of
        None \<Rightarrow> []
      | Some s \<Rightarrow>
          if s = [] then []
          else if comma \<in> set s \<or> dq \<in> set s \<or> nl \<in> set s
            then [dq] @ concat (map (\<lambda>c. if c = dq then [dq, dq] else [c]) s) @ [dq]
          else s)"

definition specRow :: "QuestionData \<Rightarrow> string" where
  "specRow q =
     specField (Some (Pregunta q)) @ [comma] @ specField (Some (Opcion_correcta_1 q)) @ [comma] @
     specField (Opcion_Correcta_2 q) @ [comma] @ specField (Opcion_Correcta_3 q) @ [comma] @
     specField (Opcion_Incorrecta_1 q) @ [comma] @ specField (Opcion_Incorrecta_2 q) @ [comma] @
     specField (Opcion_Incorrecta_3 q) @ [comma] @ specField (Explicacion q)"

definition specHeader :: string where
  "specHeader =
     ''Pregunta,Opci'' @ [o_acute] @ ''n correcta 1,Opci'' @ [o_acute] @ ''n Correcta 2,Opci'' @
     [o_acute] @ ''n Correcta 3,Opci'' @ [o_acute] @ ''n Incorrecta 1,Opci'' @ [o_acute] @
     ''n Incorrecta 2,Opci'' @ [o_acute] @ ''n Incorrecta 3,Explicaci'' @ [o_acute] @ ''n''"

definition specCsv :: "QuestionData list \<Rightarrow> string" where
  "specCsv questions = specHeader @ concat (map (\<lambda>q. nl # specRow q) questions)"

text \<open>
  What a field gives back when it is read again: its value, the empty string for an absent
  one. A value survives the round trip when it has no newline, is its own trimmed form and
  does not both start and end with a double quote.
\<close>

definition fieldValue :: "string option \<Rightarrow> string" where
  "fieldValue f = (case f of None \<Rightarrow> [] | Some s \<Rightarrow> s)"


section \<open>The bounds on the attempts (constants.ts)\<close>

definition MAX_OVERALL_REQUEST_ATTEMPTS :: nat where
  "MAX_OVERALL_REQUEST_ATTEMPTS = 2"

definition MAX_JSON_CORRECTION_ATTEMPTS :: nat where
  "MAX_JSON_CORRECTION_ATTEMPTS = 5"

section \<open>The preview of the stream (App.tsx)\<close>

definition backslash :: char where
  "backslash = CHR 0x5C"

definition tab :: char where
  "tab = CHR 0x09"

definition keyMarker :: string where
  "keyMarker = [dq] @ ''Pregunta'' @ [dq]"

text \<open>
  \<^verbatim>\<open>s.lastIndexOf(m)\<close>: the largest index at which \<open>m\<close> occurs in \<open>s\<close>; \<^const>\<open>None\<close> is
  \<^verbatim>\<open>-1\<close>.
\<close>

definition lastIndexOf :: "string \<Rightarrow> string \<Rightarrow> nat option" where
  "lastIndexOf s m =
     (case filter (\<lambda>k. take (length m) (drop k s) = m) (rev [0..<Suc (length s)]) of
        [] \<Rightarrow> None
      | k # _ \<Rightarrow> Some k)"

text \<open>
  The two \<^verbatim>\<open>for\<close> loops of \<^verbatim>\<open>setLiveStreamContentCallback\<close>, with the index \<open>i\<close> of the
  source. Each returns, beside its result, the indices at which it reads
  \<^verbatim>\<open>streamSoFar[i]\<close>, in the order of the reads.

  The first loop looks for the opening quote of the value: it skips colons, spaces,
  newlines and tabs and gives up at any other character.
\<close>

function findValueStart :: "string \<Rightarrow> nat \<Rightarrow> nat option \<times> nat list" where
  "findValueStart streamSoFar i =
     (if i < length streamSoFar then
        (if streamSoFar ! i = dq then (Some (i + 1), [i])
         else if streamSoFar ! i \<noteq> CHR '':'' \<and> streamSoFar ! i \<noteq> CHR '' '' \<and>
                 streamSoFar ! i \<noteq> nl \<and> streamSoFar ! i \<noteq> tab then (None, [i])
         else (case findValueStart streamSoFar (i + 1) of (r, reads) \<Rightarrow> (r, i # reads)))
      else (None, []))"
  by pat_completeness auto
termination
  by (relation "measure (\<lambda>(s, i). length s - i)") auto

declare findValueStart.simps [simp del]

text \<open>
  The second loop copies the value up to the first double quote that is not escaped. It
  gives \<^verbatim>\<open>latestPreguntaContent\<close> (set at the closing quote only) and \<^verbatim>\<open>contentBuffer\<close>.
\<close>

function scanValue :: "string \<Rightarrow> nat \<Rightarrow> string \<Rightarrow> bool \<Rightarrow> (string \<times> string) \<times> nat list" where
  "scanValue streamSoFar i contentBuffer inEscape =
     (if i < length streamSoFar then
        (if inEscape then
           (case scanValue streamSoFar (i + 1) (contentBuffer @ [streamSoFar ! i]) False of
              (r, reads) \<Rightarrow> (r, i # reads))
         else if streamSoFar ! i = backslash then
           (case scanValue streamSoFar (i + 1) (contentBuffer @ [streamSoFar ! i]) True of
              (r, reads) \<Rightarrow> (r, i # reads))
         else if streamSoFar ! i = dq then ((contentBuffer, contentBuffer), [i])
         else
           (case scanValue streamSoFar (i + 1) (contentBuffer @ [streamSoFar ! i]) False of
              (r, reads) \<Rightarrow> (r, i # reads)))
      else (([], contentBuffer), []))"
  by pat_completeness auto
termination
  by (relation "measure (\<lambda>(s, i, b, e). length s - i)") auto

declare scanValue.simps [simp del]

text \<open>
  The scanning pass: the value that follows the last \<^verbatim>\<open>"Pregunta"\<close> of the text, and the
  reads of the two loops.
\<close>

definition latestPregunta :: "string \<Rightarrow> string \<times> nat list" where
  "latestPregunta streamSoFar =
     (case lastIndexOf streamSoFar keyMarker of
        None \<Rightarrow> ([], [])
      | Some lastPreguntaKeyIndex \<Rightarrow>
          (case findValueStart streamSoFar (lastPreguntaKeyIndex + length keyMarker) of
             (None, reads1) \<Rightarrow> ([], reads1)
           | (Some valueStartIndex, reads1) \<Rightarrow>
               (case scanValue streamSoFar valueStartIndex [] False of
                  ((latestPreguntaContent, contentBuffer), reads2) \<Rightarrow>
                    (if latestPreguntaContent = [] \<and> contentBuffer \<noteq> [] then contentBuffer
                     else latestPreguntaContent,
                     reads1 @ reads2))))"

text \<open>\<^verbatim>\<open>s.replace(/c/g, r)\<close> for a single character \<open>c\<close>.\<close>

definition replaceChar :: "char \<Rightarrow> string \<Rightarrow> string \<Rightarrow> string" where
  "replaceChar c r s = concat (map (\<lambda>x. if x = c then r else [x]) s)"

definition displayContent :: "string \<Rightarrow> string" where
  "displayContent latestPreguntaContent =
     (if length latestPreguntaContent > 70 then substring latestPreguntaContent 0 67 @ ''...''
      else latestPreguntaContent)"

definition escapedDisplayContent :: "string \<Rightarrow> string" where
  "escapedDisplayContent d =
     replaceChar (CHR 0x27) (''&#039;'')
       (replaceChar dq (''&quot;'')
          (replaceChar (CHR ''>'') (''&gt;'')
             (replaceChar (CHR ''<'') (''&lt;'')
                (replaceChar (CHR ''&'') (''&amp;'') d))))"

definition previewMarkup :: "string \<Rightarrow> string" where
  "previewMarkup latestPreguntaContent =
     ''Pregunta [<span class='' @ [CHR 0x22] @ ''text-blue-400 font-semibold'' @
     [CHR 0x22] @ ''>'' @
     escapedDisplayContent (displayContent latestPreguntaContent) @
     ''</span>] generada!''"

text \<open>
  The state the callback writes: \<^verbatim>\<open>currentRawStreamRef.current\<close>, \<^verbatim>\<open>geminiLiveThought\<close> and
  \<^verbatim>\<open>currentAnimatedPreviewText\<close> (\<^const>\<open>None\<close> is \<^verbatim>\<open>null\<close>). The preview is written only when
  the value found is not empty.
\<close>

record previewState =
  currentRawStream :: string
  geminiLiveThought :: string
  currentAnimatedPreviewText :: "string option"

definition setLiveStreamContentCallback :: "string \<Rightarrow> bool \<Rightarrow> previewState \<Rightarrow> previewState" where
  "setLiveStreamContentCallback chunk replace st =
     (let streamSoFar = (if replace then chunk else currentRawStream st @ chunk);
          latestPreguntaContent = fst (latestPregunta streamSoFar)
      in st\<lparr>currentRawStream := streamSoFar, geminiLiveThought := streamSoFar,
             currentAnimatedPreviewText :=
               (if latestPreguntaContent \<noteq> [] then Some (previewMarkup latestPreguntaContent)
                else currentAnimatedPreviewText st)\<rparr>)"

text \<open>
  The aggregation of the stream in \<^verbatim>\<open>generateQuestionsFromGemini\<close>: the callback is reset
  with the empty text, then every chunk with a text (an empty or missing one is skipped)
  is appended to \<^verbatim>\<open>aggregatedStreamOutput\<close> and passed to the callback.
\<close>

definition receiveChunk :: "string \<times> previewState \<Rightarrow> string \<Rightarrow> string \<times> previewState" where
  "receiveChunk a chunkText =
     (case a of (aggregatedStreamOutput, st) \<Rightarrow>
        if chunkText \<noteq> [] then
          (aggregatedStreamOutput @ chunkText, setLiveStreamContentCallback chunkText False st)
        else (aggregatedStreamOutput, st))"

definition receiveStream :: "string list \<Rightarrow> previewState \<Rightarrow> string \<times> previewState" where
  "receiveStream chunks st = foldl receiveChunk ([], setLiveStreamContentCallback [] True st) chunks"

text \<open>
  The scanning pass described on the text itself: after the last \<^verbatim>\<open>"Pregunta"\<close> and any
  colons, spaces, newlines and tabs, an opening double quote, then the characters as they
  stand (an escape sequence is not decoded) up to the first double quote that no backslash
  escapes, or to the end of the text.
\<close>

fun rawValue :: "bool \<Rightarrow> string \<Rightarrow> string" where
  "rawValue inEscape [] = []"
| "rawValue inEscape (c # cs) =
     (if inEscape then c # rawValue False cs
      else if c = backslash then c # rawValue True cs
      else if c = dq then []
      else c # rawValue False cs)"

definition isSeparator :: "char \<Rightarrow> bool" where
  "isSeparator c = (c = CHR '':'' \<or> c = CHR '' '' \<or> c = nl \<or> c = tab)"

definition specLatest :: "string \<Rightarrow> string" where
  "specLatest text =
     (case lastIndexOf text keyMarker of
        None \<Rightarrow> []
      | Some k \<Rightarrow>
          (case dropWhile isSeparator (drop (k + length keyMarker) text) of
             [] \<Rightarrow> []
           | c # rest \<Rightarrow> if c = dq then rawValue False rest else []))"

text \<open>
  What the preview shows of a value, described on the value itself: a value of more than
  70 characters is cut to its first 67 characters followed by three dots; then each of
  the five characters \<^verbatim>\<open>&\<close>, \<^verbatim>\<open><\<close>, \<^verbatim>\<open>>\<close>, \<^verbatim>\<open>"\<close> and \<^verbatim>\<open>'\<close> is written as its HTML entity; the
  result is set in the sentence of the preview.
\<close>

definition specShorten :: "string \<Rightarrow> string" where
  "specShorten v = (if 70 < length v then take 67 v @ ''...'' else v)"

definition specEntity :: "char \<Rightarrow> string" where
  "specEntity c =
     (if c = CHR ''&'' then ''&amp;''
      else if c = CHR ''<'' then ''&lt;''
      else if c = CHR ''>'' then ''&gt;''
      else if c = CHR 0x22 then ''&quot;''
      else if c = CHR 0x27 then ''&#039;''
      else [c])"

definition specPreview :: "string \<Rightarrow> string" where
  "specPreview v =
     ''Pregunta [<span class='' @ [CHR 0x22] @ ''text-blue-400 font-semibold'' @ [CHR 0x22] @ ''>'' @
     concat (map specEntity (specShorten v)) @ ''</span>] generada!''"

section \<open>The Gemini service (services/geminiService.ts)\<close>

subsection \<open>Parsed JSON\<close>

text \<open>
  What \<^verbatim>\<open>JSON.parse\<close> returns. A number is kept as the text \<^verbatim>\<open>String\<close> gives for it (which
  is all the service does with one); an object is the list of its keys and values, one
  entry for a key.
\<close>

datatype json =
  JNull
| JBool bool
| JNum string
| JStr string
| JArr "json list"
| JObj "(string \<times> json) list"

definition typeof :: "json \<Rightarrow> string" where
  "typeof v =
     (case v of
        JNull \<Rightarrow> ''object''
      | JBool b \<Rightarrow> ''boolean''
      | JNum n \<Rightarrow> ''number''
      | JStr s \<Rightarrow> ''string''
      | JArr xs \<Rightarrow> ''object''
      | JObj kvs \<Rightarrow> ''object'')"

text \<open>\<^verbatim>\<open>String(v)\<close>; an array is its elements joined by commas, \<^verbatim>\<open>null\<close> as the empty text.\<close>

fun js_String :: "json \<Rightarrow> string" where
  "js_String JNull = ''null''"
| "js_String (JBool b) = (if b then ''true'' else ''false'')"
| "js_String (JNum n) = n"
| "js_String (JStr s) = s"
| "js_String (JArr xs) = join [comma] (map (\<lambda>x. if x = JNull then [] else js_String x) xs)"
| "js_String (JObj kvs) = ''[object Object]''"

text \<open>
  \<^verbatim>\<open>item[key]\<close> for one of the keys the service reads: the value of an object's key, and
  \<^verbatim>\<open>undefined\<close> (\<^const>\<open>None\<close>) when the object has no such key or the item is an array.
\<close>

definition getProp :: "json \<Rightarrow> string \<Rightarrow> json option" where
  "getProp item key = (case item of JObj kvs \<Rightarrow> map_of kvs key | _ \<Rightarrow> None)"

text \<open>The truth value JavaScript gives a value in a condition.\<close>

definition truthy :: "json option \<Rightarrow> bool" where
  "truthy v =
     (case v of
        None \<Rightarrow> False
      | Some JNull \<Rightarrow> False
      | Some (JBool b) \<Rightarrow> b
      | Some (JNum n) \<Rightarrow> n \<noteq> ''0''
      | Some (JStr s) \<Rightarrow> s \<noteq> []
      | Some (JArr xs) \<Rightarrow> True
      | Some (JObj kvs) \<Rightarrow> True)"

text \<open>\<^verbatim>\<open>(v === null || v === undefined) ? undefined : String(v)\<close>\<close>

definition optionalText :: "json option \<Rightarrow> string option" where
  "optionalText v =
     (case v of None \<Rightarrow> None | Some JNull \<Rightarrow> None | Some x \<Rightarrow> Some (js_String x))"

text \<open>The decimal digits of a number, as a template literal prints it.\<close>

fun showNat :: "nat \<Rightarrow> string" where
  "showNat n =
     (if n < 10 then [char_of (48 + n)]
      else showNat (n div 10) @ [char_of (48 + n mod 10)])"

declare showNat.simps [simp del]

subsection \<open>The keys and the messages\<close>

definition key_Pregunta :: string where
  "key_Pregunta = ''Pregunta''"

definition key_id :: string where
  "key_id = ''id''"

definition key_Opcion_correcta_1 :: string where
  "key_Opcion_correcta_1 = ''Opci'' @ [o_acute] @ ''n correcta 1''"

definition key_Opcion_Correcta_2 :: string where
  "key_Opcion_Correcta_2 = ''Opci'' @ [o_acute] @ ''n Correcta 2''"

definition key_Opcion_Correcta_3 :: string where
  "key_Opcion_Correcta_3 = ''Opci'' @ [o_acute] @ ''n Correcta 3''"

definition key_Opcion_Incorrecta_1 :: string where
  "key_Opcion_Incorrecta_1 = ''Opci'' @ [o_acute] @ ''n Incorrecta 1''"

definition key_Opcion_Incorrecta_2 :: string where
  "key_Opcion_Incorrecta_2 = ''Opci'' @ [o_acute] @ ''n Incorrecta 2''"

definition key_Opcion_Incorrecta_3 :: string where
  "key_Opcion_Incorrecta_3 = ''Opci'' @ [o_acute] @ ''n Incorrecta 3''"

definition key_Explicacion :: string where
  "key_Explicacion = ''Explicaci'' @ [o_acute] @ ''n''"

definition notAnObjectMessage :: "nat \<Rightarrow> string" where
  "notAnObjectMessage i =
     ''Item '' @ showNat i @
     '' en el array JSON no es un objeto.''"

text \<open>
  The message for an item without the two required texts. It is built from
  \<^verbatim>\<open>itemPregunta.substring(0,20)\<close> when \<^verbatim>\<open>itemPregunta\<close> is truthy; for a truthy value that is
  not a string that call raises a \<^verbatim>\<open>TypeError\<close> instead, whose message (the engine's; V8's
  here) is then the one caught.
\<close>

definition substringTypeError :: string where
  "substringTypeError = ''itemPregunta.substring is not a function''"

definition missingFieldsMessage :: "nat \<Rightarrow> json option \<Rightarrow> string" where
  "missingFieldsMessage i itemPregunta =
     (if truthy itemPregunta then
        (case itemPregunta of
           Some (JStr s) \<Rightarrow>
             ''Item '' @ showNat i @ '' ('' @ substring s 0 20 @ ''...'' @
     '') en el array JSON no tiene los campos requeridos '' @ [CHR 0x27] @
     ''Pregunta'' @ [CHR 0x27] @ '' y '' @ [CHR 0x27] @ ''Opci'' @ [CHR 0xF3] @
     ''n correcta 1'' @ [CHR 0x27] @ '' como strings no vac'' @ [CHR 0xED] @ ''os.''
         | _ \<Rightarrow> substringTypeError)
      else
        ''Item '' @ showNat i @ '' ('' @
     ''Pregunta Vac'' @ [CHR 0xED] @ ''a'' @
     '') en el array JSON no tiene los campos requeridos '' @ [CHR 0x27] @
     ''Pregunta'' @ [CHR 0x27] @ '' y '' @ [CHR 0x27] @ ''Opci'' @ [CHR 0xF3] @
     ''n correcta 1'' @ [CHR 0x27] @ '' como strings no vac'' @ [CHR 0xED] @ ''os.'')"

definition notAnArrayMessage :: "json \<Rightarrow> string" where
  "notAnArrayMessage parsedData =
     ''La respuesta JSON no es un array. Recibido: '' @ typeof parsedData"

definition noObjectMatchedMessage :: string where
  "noObjectMatchedMessage =
     ''El array JSON fue recibido, pero ning'' @ [CHR 0xFA] @ ''n objeto cumpli'' @
     [CHR 0xF3] @ '' la estructura esperada para las preguntas.''"

definition noQuestionsMessage :: "string \<Rightarrow> string" where
  "noQuestionsMessage jsonStrToParse =
     ''Gemini no gener'' @ [CHR 0xF3] @ '' ninguna pregunta v'' @ [CHR 0xE1] @
     ''lida en el JSON. JSON parseado result'' @ [CHR 0xF3] @
     '' en 0 preguntas. Contenido parseado: '' @
     substring jsonStrToParse 0 200 @ ''...''"

definition emptyResponseMessage :: string where
  "emptyResponseMessage =
     ''Gemini devolvi'' @ [CHR 0xF3] @ '' una respuesta JSON vac'' @ [CHR 0xED] @
     ''a.''"

definition unknownParseError :: string where
  "unknownParseError = ''Error de parseo desconocido''"

definition noApiKeyForService :: string where
  "noApiKeyForService = ''API_KEY no fue proporcionada al servicio Gemini.''"

definition finalErrorMessage :: "string \<Rightarrow> string option \<Rightarrow> string \<Rightarrow> string" where
  "finalErrorMessage requestPrompt lastJsonErrorForReprompt lastGeminiRawOutput =
     ''Fallaron todos los '' @ showNat MAX_JSON_CORRECTION_ATTEMPTS @
     '' intentos de correcci'' @ [CHR 0xF3] @
     ''n de formato JSON para la solicitud '' @ [CHR 0x22] @
     substring requestPrompt 0 50 @
     ''...'' @ [CHR 0x22] @ ''. '' @ [CHR 0xDA] @ ''ltimo error: '' @
     (case lastJsonErrorForReprompt of
        None \<Rightarrow>
     ''Error desconocido despu'' @ [CHR 0xE9] @ ''s de m'' @ [CHR 0xFA] @
     ''ltiples intentos.''
      | Some e \<Rightarrow>
          if e = [] then
     ''Error desconocido despu'' @ [CHR 0xE9] @ ''s de m'' @ [CHR 0xFA] @
     ''ltiples intentos.''
          else e) @
     ''. Respuesta final de Gemini: '' @ [CHR 0x22] @
     substring lastGeminiRawOutput 0 300 @
     ''...'' @ [CHR 0x22]"

subsection \<open>The correction prompt\<close>

definition questionObjectStructure :: string where
  "questionObjectStructure =
     ''{'' @ [CHR 0x0A] @ ''  '' @ [CHR 0x22] @ ''id'' @ [CHR 0x22] @ '': '' @
     [CHR 0x22] @ ''string_or_null (SOLO para preguntas REESCRITAS, usa el ID or'' @
     ''iginal. Para preguntas NUEVAS, omite este campo o usa null)'' @ [CHR 0x22] @
     '','' @ [CHR 0x0A] @ ''  '' @ [CHR 0x22] @ ''Pregunta'' @ [CHR 0x22] @ '': '' @
     [CHR 0x22] @ ''string'' @ [CHR 0x22] @ '','' @ [CHR 0x0A] @ ''  '' @ [CHR 0x22] @
     ''Opci'' @ [CHR 0xF3] @ ''n correcta 1'' @ [CHR 0x22] @ '': '' @ [CHR 0x22] @
     ''string'' @ [CHR 0x22] @ '','' @ [CHR 0x0A] @ ''  '' @ [CHR 0x22] @ ''Opci'' @
     [CHR 0xF3] @ ''n Correcta 2'' @ [CHR 0x22] @ '': '' @ [CHR 0x22] @
     ''string_or_empty_string'' @ [CHR 0x22] @ '', '' @ [CHR 0x0A] @ ''  '' @
     [CHR 0x22] @ ''Opci'' @ [CHR 0xF3] @ ''n Correcta 3'' @ [CHR 0x22] @ '': '' @
     [CHR 0x22] @ ''string_or_empty_string'' @ [CHR 0x22] @ '','' @ [CHR 0x0A] @
     ''  '' @ [CHR 0x22] @ ''Opci'' @ [CHR 0xF3] @ ''n Incorrecta 1'' @ [CHR 0x22] @
     '': '' @ [CHR 0x22] @ ''string_or_empty_string'' @ [CHR 0x22] @ '','' @
     [CHR 0x0A] @ ''  '' @ [CHR 0x22] @ ''Opci'' @ [CHR 0xF3] @ ''n Incorrecta 2'' @
     [CHR 0x22] @ '': '' @ [CHR 0x22] @ ''string_or_empty_string'' @ [CHR 0x22] @
     '','' @ [CHR 0x0A] @ ''  '' @ [CHR 0x22] @ ''Opci'' @ [CHR 0xF3] @
     ''n Incorrecta 3'' @ [CHR 0x22] @ '': '' @ [CHR 0x22] @
     ''string_or_empty_string'' @ [CHR 0x22] @ '','' @ [CHR 0x0A] @ ''  '' @
     [CHR 0x22] @ ''Explicaci'' @ [CHR 0xF3] @ ''n'' @ [CHR 0x22] @ '': '' @
     [CHR 0x22] @ ''string_or_empty_string'' @ [CHR 0x22] @ '' '' @ [CHR 0x0A] @ ''}''"

definition correctionPromptHead :: string where
  "correctionPromptHead =
     ''Tu tarea anterior era generar un array JSON de preguntas, pe'' @
     ''ro hubo un error en el formato de tu respuesta.'' @ [CHR 0x0A, CHR 0x0A] @
     ''El error detectado fue: '' @ [CHR 0x22]"

definition correctionPromptMiddle :: string where
  "correctionPromptMiddle =
     [CHR 0x22, CHR 0x0A, CHR 0x0A] @
     ''La respuesta ANTERIOR que generaste y que necesita CORRECCI'' @ [CHR 0xD3] @
     ''N es:'' @ [CHR 0x0A] @ ''---'' @ [CHR 0x0A]"

definition correctionPromptTail :: string where
  "correctionPromptTail =
     [CHR 0x0A] @ ''---'' @ [CHR 0x0A, CHR 0x0A] @ ''Por favor, corrige '' @
     [CHR 0xDA] @ ''NICAMENTE el formato JSON de la respuesta anterior.'' @
     [CHR 0x0A] @ ''Aseg'' @ [CHR 0xFA] @
     ''rate de que la respuesta sea un array JSON V'' @ [CHR 0xC1] @ ''LIDO.'' @
     [CHR 0x0A] @ ''Cada objeto en el array DEBE seguir esta estructura:'' @ [CHR 0x0A] @
     questionObjectStructure @
     [CHR 0x0A, CHR 0x0A] @
     ''NO generes preguntas nuevas. NO cambies el contenido sustanc'' @
     ''ial de las preguntas si no es estrictamente necesario para c'' @
     ''orregir el formato JSON.'' @ [CHR 0x0A] @
     ''Verifica comillas, comas, llaves y corchetes para asegurar q'' @
     ''ue el JSON sea v'' @ [CHR 0xE1] @ ''lido.'' @ [CHR 0x0A] @
     ''Si un campo opcional no se usa, usa una cadena vac'' @ [CHR 0xED] @ ''a '' @
     [CHR 0x60, CHR 0x22, CHR 0x22, CHR 0x60] @ ''. NO uses '' @ [CHR 0x60] @
     ''null'' @ [CHR 0x60] @ '' para campos de opciones/explicaci'' @ [CHR 0xF3] @
     ''n. Para el campo '' @ [CHR 0x22] @ ''id'' @ [CHR 0x22] @
     '', sigue las instrucciones: ID original para reescritas, null'' @
     '' u omitido para nuevas.'' @ [CHR 0x0A] @ ''La '' @ [CHR 0x27] @ ''Explicaci'' @
     [CHR 0xF3] @ ''n'' @ [CHR 0x27] @
     '' es obligatoria y debe ser una cadena (puede ser '' @
     [CHR 0x60, CHR 0x22, CHR 0x22, CHR 0x60] @ '' si es imposible una explicaci'' @
     [CHR 0xF3] @ ''n).'' @ [CHR 0x0A, CHR 0x0A, CHR 0x0A] @
     ''Vuelve a generar la respuesta COMPLETA, con el formato JSON '' @
     ''corregido. Solo el array JSON.'' @ [CHR 0x0A]"

definition constructJsonCorrectionPrompt :: "string \<Rightarrow> string \<Rightarrow> string" where
  "constructJsonCorrectionPrompt faultyJsonOutput parsingErrorDetails =
     correctionPromptHead @ parsingErrorDetails @ correctionPromptMiddle @ faultyJsonOutput @
     correctionPromptTail"

subsection \<open>Parsing and validating one answer\<close>

text \<open>
  What the service takes from outside: \<^verbatim>\<open>JSON.parse\<close> (the message of the \<^verbatim>\<open>SyntaxError\<close>, or
  the value), the answers of the model to the correction prompts (the message of the
  error the call throws, or \<^verbatim>\<open>correctionResponse.text\<close>, which is \<^verbatim>\<open>undefined\<close>, here \<^const>\<open>None\<close>,
  when the response carries no text; the number of the attempt tells the calls apart),
  and the text \<^verbatim>\<open>${Date.now()}-${Math.random().toString(36).substring(2, 9)}\<close>
  made for a new id (for an attempt and an item).
\<close>

record env =
  jsonParse :: "string \<Rightarrow> string + json"
  generateContent :: "nat \<Rightarrow> string \<Rightarrow> string + string option"
  newIdStamp :: "nat \<Rightarrow> nat \<Rightarrow> string"

text \<open>
  The match of \<^verbatim>\<open>/^```(?:json)?\s*\n?(.*?)\n?\s*```$/s\<close> on a text, as its group 1: the text
  must start and end with three backquotes that do not overlap; the group is what lies
  between them, without a leading \<^verbatim>\<open>json\<close> and without white space at either end.
\<close>

definition fence :: string where
  "fence = [CHR 0x60, CHR 0x60, CHR 0x60]"

definition fenceMatch :: "string \<Rightarrow> string option" where
  "fenceMatch s =
     (if 6 \<le> length s \<and> startsWith s fence \<and> endsWith s fence then
        (let inner = take (length s - 6) (drop 3 s);
             inner' = (if startsWith inner ''json'' then drop 4 inner else inner)
         in Some (rev (dropWhile isWs (rev (dropWhile isWs inner')))))
      else None)"

definition stripFence :: "string \<Rightarrow> string" where
  "stripFence lastGeminiRawOutput =
     (let jsonStrToParse = trim lastGeminiRawOutput
      in case fenceMatch jsonStrToParse of
           None \<Rightarrow> jsonStrToParse
         | Some g \<Rightarrow> if g \<noteq> [] then trim g else jsonStrToParse)"

text \<open>
  \<^verbatim>\<open>typeof v === 'string' && v.trim() !== ''\<close>: the text when the value is one that is not
  blank.
\<close>

definition nonBlankText :: "json option \<Rightarrow> string option" where
  "nonBlankText v = (case v of Some (JStr s) \<Rightarrow> if trim s \<noteq> [] then Some s else None | _ \<Rightarrow> None)"

text \<open>
  \<^verbatim>\<open>finalId\<close>: the id of the item when that is a text that is not blank, a new id
  otherwise. \<^verbatim>\<open>itemExplicacion\<close>: the empty text for \<^verbatim>\<open>null\<close> and \<^verbatim>\<open>undefined\<close>.
\<close>

definition finalId :: "env \<Rightarrow> nat \<Rightarrow> nat \<Rightarrow> json option \<Rightarrow> string" where
  "finalId e attempt i itemIdFromGemini =
     (case nonBlankText itemIdFromGemini of
        Some s \<Rightarrow> s
      | None \<Rightarrow> ''gen-'' @ newIdStamp e attempt i)"

definition itemExplicacion :: "json option \<Rightarrow> string" where
  "itemExplicacion v = (case v of None \<Rightarrow> [] | Some JNull \<Rightarrow> [] | Some x \<Rightarrow> js_String x)"

definition questionEntry :: "env \<Rightarrow> nat \<Rightarrow> nat \<Rightarrow> json \<Rightarrow> string \<Rightarrow> string \<Rightarrow> QuestionData" where
  "questionEntry e attempt i item itemPregunta itemOpcionCorrecta1 =
     \<lparr>qid = finalId e attempt i (getProp item key_id),
      Pregunta = itemPregunta,
      Opcion_correcta_1 = itemOpcionCorrecta1,
      Opcion_Correcta_2 = optionalText (getProp item key_Opcion_Correcta_2),
      Opcion_Correcta_3 = optionalText (getProp item key_Opcion_Correcta_3),
      Opcion_Incorrecta_1 = optionalText (getProp item key_Opcion_Incorrecta_1),
      Opcion_Incorrecta_2 = optionalText (getProp item key_Opcion_Incorrecta_2),
      Opcion_Incorrecta_3 = optionalText (getProp item key_Opcion_Incorrecta_3),
      Explicacion = Some (itemExplicacion (getProp item key_Explicacion))\<rparr>"

text \<open>
  One item of the array: it must be an object (or an array: \<^verbatim>\<open>typeof\<close> is \<^verbatim>\<open>'object'\<close>) with
  the texts \<^verbatim>\<open>Pregunta\<close> and \<^verbatim>\<open>'Opci\'on correcta 1'\<close>, neither blank.
\<close>

definition validateItem :: "env \<Rightarrow> nat \<Rightarrow> nat \<Rightarrow> json \<Rightarrow> string + QuestionData" where
  "validateItem e attempt i item =
     (if typeof item \<noteq> ''object'' \<or> item = JNull then Inl (notAnObjectMessage i)
      else
        (case nonBlankText (getProp item key_Pregunta) of
           None \<Rightarrow> Inl (missingFieldsMessage i (getProp item key_Pregunta))
         | Some itemPregunta \<Rightarrow>
             (case nonBlankText (getProp item key_Opcion_correcta_1) of
                None \<Rightarrow> Inl (missingFieldsMessage i (getProp item key_Pregunta))
              | Some itemOpcionCorrecta1 \<Rightarrow>
                  Inr (questionEntry e attempt i item itemPregunta itemOpcionCorrecta1))))"

text \<open>The loop over the items: the first item that fails ends it with its message.\<close>

fun validateItems :: "env \<Rightarrow> nat \<Rightarrow> nat \<Rightarrow> json list \<Rightarrow> string + QuestionData list" where
  "validateItems e attempt i [] = Inr []"
| "validateItems e attempt i (item # items) =
     (case validateItem e attempt i item of
        Inl msg \<Rightarrow> Inl msg
      | Inr entry \<Rightarrow>
          (case validateItems e attempt (Suc i) items of
             Inl msg \<Rightarrow> Inl msg
           | Inr parsedQuestions \<Rightarrow> Inr (entry # parsedQuestions)))"

text \<open>
  The body of the \<^verbatim>\<open>try\<close> after the answer is known not to be blank: the message of the
  error thrown, or \<^verbatim>\<open>parsedQuestions\<close>.
\<close>

definition parseAndValidate :: "env \<Rightarrow> nat \<Rightarrow> string \<Rightarrow> string + QuestionData list" where
  "parseAndValidate e attempt lastGeminiRawOutput =
     (let jsonStrToParse = stripFence lastGeminiRawOutput
      in case jsonParse e jsonStrToParse of
           Inl msg \<Rightarrow> Inl msg
         | Inr parsedData \<Rightarrow>
             (case parsedData of
                JArr items \<Rightarrow>
                  (case validateItems e attempt 0 items of
                     Inl msg \<Rightarrow> Inl msg
                   | Inr parsedQuestions \<Rightarrow>
                       if length items > 0 \<and> parsedQuestions = [] then Inl noObjectMatchedMessage
                       else if parsedQuestions = [] \<and> items = [] \<and> trim jsonStrToParse \<noteq> []
                               \<and> trim jsonStrToParse \<noteq> ''[]''
                         then Inl (noQuestionsMessage jsonStrToParse)
                       else Inr parsedQuestions)
              | _ \<Rightarrow> Inl (notAnArrayMessage parsedData)))"

subsection \<open>The correction loop\<close>

text \<open>
  One pass of the \<^verbatim>\<open>while\<close> loop as it is logged: the value of \<^verbatim>\<open>jsonCorrectionAttempts\<close>, the
  correction prompt sent (none in the first pass), \<^verbatim>\<open>lastGeminiRawOutput\<close> as the pass leaves
  it (\<^const>\<open>None\<close> is \<^verbatim>\<open>undefined\<close>), and the message of the error thrown in the \<^verbatim>\<open>try\<close> block
  or the questions returned.
\<close>

record attempt =
  attemptNo :: nat
  sentPrompt :: "string option"
  rawOutput :: "string option"
  outcome :: "string + QuestionData list"

text \<open>\<^verbatim>\<open>lastJsonErrorForReprompt || "Error de parseo desconocido"\<close>\<close>

definition errorForReprompt :: "string option \<Rightarrow> string" where
  "errorForReprompt lastJsonErrorForReprompt =
     (case lastJsonErrorForReprompt of
        None \<Rightarrow> unknownParseError
      | Some e \<Rightarrow> if e = [] then unknownParseError else e)"

text \<open>
  The messages of the \<^verbatim>\<open>TypeError\<close> (the engine's; V8's here) raised by
  \<^verbatim>\<open>lastGeminiRawOutput.length\<close> and by \<^verbatim>\<open>lastGeminiRawOutput.substring(0,500)\<close> when
  \<^verbatim>\<open>lastGeminiRawOutput\<close> is \<^verbatim>\<open>undefined\<close>.
\<close>

definition lengthOfUndefined :: string where
  "lengthOfUndefined =
     ''Cannot read properties of undefined (reading '' @ [CHR 0x27] @ ''length'' @ [CHR 0x27] @ '')''"

definition substringOfUndefined :: string where
  "substringOfUndefined =
     ''Cannot read properties of undefined (reading '' @ [CHR 0x27] @ ''substring'' @ [CHR 0x27] @ '')''"

text \<open>
  The \<^verbatim>\<open>try\<close> block of one pass: from the second pass on the model is asked to correct its
  last answer; an error of that call is thrown with \<^verbatim>\<open>lastGeminiRawOutput\<close> as it was. The
  text of the response is assigned to \<^verbatim>\<open>lastGeminiRawOutput\<close> and the log entry that follows
  reads its \<^verbatim>\<open>length\<close>, which throws when the text is \<^verbatim>\<open>undefined\<close>. A blank answer and an
  answer that does not parse or validate leave their message for the next pass.
\<close>

definition runAttempt :: "env \<Rightarrow> nat \<Rightarrow> string \<Rightarrow> string option \<Rightarrow> attempt" where
  "runAttempt e jsonCorrectionAttempts lastGeminiRawOutput lastJsonErrorForReprompt =
     (let sent = (if jsonCorrectionAttempts > 0
                  then Some (constructJsonCorrectionPrompt lastGeminiRawOutput
                               (errorForReprompt lastJsonErrorForReprompt))
                  else None);
          response = (case sent of
                        None \<Rightarrow> Inr (Some lastGeminiRawOutput)
                      | Some p \<Rightarrow> generateContent e jsonCorrectionAttempts p)
      in case response of
           Inl msg \<Rightarrow>
             \<lparr>attemptNo = jsonCorrectionAttempts, sentPrompt = sent,
              rawOutput = Some lastGeminiRawOutput, outcome = Inl msg\<rparr>
         | Inr None \<Rightarrow>
             \<lparr>attemptNo = jsonCorrectionAttempts, sentPrompt = sent,
              rawOutput = None, outcome = Inl lengthOfUndefined\<rparr>
         | Inr (Some answer) \<Rightarrow>
             \<lparr>attemptNo = jsonCorrectionAttempts, sentPrompt = sent, rawOutput = Some answer,
              outcome = (if trim answer = [] then Inl emptyResponseMessage
                         else parseAndValidate e jsonCorrectionAttempts answer)\<rparr>)"

text \<open>
  The loop \<^verbatim>\<open>while (jsonCorrectionAttempts < MAX_JSON_CORRECTION_ATTEMPTS)\<close>: it returns
  \<^verbatim>\<open>rawText\<close>, \<^verbatim>\<open>parsedQuestions\<close> and \<^verbatim>\<open>jsonCorrectionAttempts\<close> from the first pass that
  succeeds, and throws the final message when the counter reaches the bound. The \<^verbatim>\<open>catch\<close>
  block logs \<^verbatim>\<open>lastGeminiRawOutput.substring(0,500)\<close>: when \<^verbatim>\<open>lastGeminiRawOutput\<close> is
  \<^verbatim>\<open>undefined\<close> (the \<^verbatim>\<open>try\<close> block has thrown then) that call throws in its turn, and the error
  leaves the function. The passes made are returned with the result.
\<close>

function correctionLoop ::
  "env \<Rightarrow> string \<Rightarrow> nat \<Rightarrow> string \<Rightarrow> string option
     \<Rightarrow> (string + string \<times> QuestionData list \<times> nat) \<times> attempt list" where
  "correctionLoop e requestPrompt jsonCorrectionAttempts lastGeminiRawOutput lastJsonErrorForReprompt =
     (if jsonCorrectionAttempts < MAX_JSON_CORRECTION_ATTEMPTS then
        (let a = runAttempt e jsonCorrectionAttempts lastGeminiRawOutput lastJsonErrorForReprompt
         in case rawOutput a of
              None \<Rightarrow> (Inl substringOfUndefined, [a])
            | Some answer \<Rightarrow>
                (case outcome a of
                   Inr parsedQuestions \<Rightarrow>
                     (Inr (answer, parsedQuestions, jsonCorrectionAttempts), [a])
                 | Inl msg \<Rightarrow>
                     (case correctionLoop e requestPrompt (Suc jsonCorrectionAttempts) answer
                             (Some msg) of
                        (r, passes) \<Rightarrow> (r, a # passes))))
      else
        (Inl (finalErrorMessage requestPrompt lastJsonErrorForReprompt lastGeminiRawOutput), []))"
  by pat_completeness auto
termination
  by (relation "measure (\<lambda>(e, p, n, raw, err). MAX_JSON_CORRECTION_ATTEMPTS - n)") auto

declare correctionLoop.simps [simp del]

text \<open>
  \<^verbatim>\<open>generateQuestionsFromGemini\<close>, from the answers of the model: without an API key it
  throws at once; it aggregates the stream, and throws the error of the stream if there is
  one; then it runs the correction loop on the aggregated text. (The prompt and the files
  decide only what is sent to the model.)
\<close>

definition generateQuestionsFromGemini ::
  "env \<Rightarrow> string \<Rightarrow> string \<Rightarrow> string list \<Rightarrow> string option \<Rightarrow> previewState
     \<Rightarrow> ((string + string \<times> QuestionData list \<times> nat) \<times> attempt list) \<times> previewState" where
  "generateQuestionsFromGemini e apiKey requestPrompt chunks streamError st =
     (if apiKey = [] then ((Inl noApiKeyForService, []), st)
      else
        (case receiveStream chunks st of
           (aggregatedStreamOutput, st') \<Rightarrow>
             (case streamError of
                Some msg \<Rightarrow> ((Inl msg, []), st')
              | None \<Rightarrow> (correctionLoop e requestPrompt 0 aggregatedStreamOutput None, st'))))"

section \<open>The request queue (App.tsx)\<close>

datatype RequestStatus = Pending | Processing | Completed | Error

text \<open>
  \<^verbatim>\<open>GenerationRequest\<close>; the attached files play no part in the control flow and are left
  out. \<^const>\<open>None\<close> is \<^verbatim>\<open>undefined\<close>.
\<close>

record GenerationRequest =
  rid :: string
  prompt :: string
  status :: RequestStatus
  errorDetails :: "string option"
  jsonCorrectionAttempts :: "nat option"
  questionsGeneratedCount :: "nat option"

text \<open>
  What \<^verbatim>\<open>processQueue\<close> reads of a thrown value: \<^verbatim>\<open>error.message\<close> (the empty string also
  stands for a missing one: both are falsy) and
  \<^verbatim>\<open>(error.sourceError || error).jsonCorrectionAttempts\<close> when that is a number.
\<close>

record thrown =
  message :: string
  attemptsFromError :: "nat option"

text \<open>
  One call of \<^verbatim>\<open>generateQuestionsFromGemini\<close> as the queue sees it: it throws, or returns
  \<^verbatim>\<open>parsedQuestions\<close> and \<^verbatim>\<open>jsonCorrectionAttempts\<close>. The call is a parameter of the queue:
  it is given the request, the number of the overall attempt and
  \<^verbatim>\<open>lastOverallAttemptError\<close>.
\<close>

type_synonym generation = "GenerationRequest \<Rightarrow> nat \<Rightarrow> string option \<Rightarrow> thrown + QuestionData list \<times> nat"

text \<open>
  The effects of a run in their order: a \<^verbatim>\<open>setRequests\<close> that gives the requests with an
  id a status (with the list of requests it leaves), and a call of the generation.
\<close>

datatype event =
  StatusSet string RequestStatus "GenerationRequest list"
| GenerateCalled string nat

record appState =
  requests :: "GenerationRequest list"
  generatedQuestions :: "QuestionData list"
  globalError :: "string option"
  isProcessing :: bool
  events :: "event list"

text \<open>
  The updater passed to \<^verbatim>\<open>setGeneratedQuestions\<close>. First every existing question that has
  a batch question of the same id (\<^verbatim>\<open>find\<close>: the first one) is replaced by it, and its id
  is put into \<^verbatim>\<open>processedIdsFromGemini\<close>; then the batch is walked in order and a question
  is pushed when its id is neither processed nor in the list built so far.
\<close>

definition rewriteExisting :: "QuestionData list \<Rightarrow> QuestionData list \<Rightarrow> QuestionData list" where
  "rewriteExisting questionsFromCurrentGeminiCall prevGeneratedQuestions =
     map (\<lambda>existingQ.
            case find (\<lambda>nq. qid nq = qid existingQ) questionsFromCurrentGeminiCall of
              Some rewrittenVersion \<Rightarrow> rewrittenVersion
            | None \<Rightarrow> existingQ)
         prevGeneratedQuestions"

definition processedIdsFromGemini :: "QuestionData list \<Rightarrow> QuestionData list \<Rightarrow> string set" where
  "processedIdsFromGemini questionsFromCurrentGeminiCall prevGeneratedQuestions =
     set (concat (map (\<lambda>existingQ.
            case find (\<lambda>nq. qid nq = qid existingQ) questionsFromCurrentGeminiCall of
              Some rewrittenVersion \<Rightarrow> [qid rewrittenVersion]
            | None \<Rightarrow> [])
         prevGeneratedQuestions))"

fun addNewQuestions :: "string set \<Rightarrow> QuestionData list \<Rightarrow> QuestionData list \<Rightarrow> QuestionData list" where
  "addNewQuestions processed [] updatedList = updatedList"
| "addNewQuestions processed (nq # nqs) updatedList =
     (if qid nq \<notin> processed then
        (let alreadyExists = (\<exists>uq \<in> set updatedList. qid uq = qid nq)
         in if \<not> alreadyExists then addNewQuestions processed nqs (updatedList @ [nq])
            else addNewQuestions processed nqs updatedList)
      else addNewQuestions processed nqs updatedList)"

definition mergeQuestions :: "QuestionData list \<Rightarrow> QuestionData list \<Rightarrow> QuestionData list" where
  "mergeQuestions newQsFromGemini prevGeneratedQuestions =
     addNewQuestions (processedIdsFromGemini newQsFromGemini prevGeneratedQuestions)
       newQsFromGemini (rewriteExisting newQsFromGemini prevGeneratedQuestions)"

text \<open>
  \<^verbatim>\<open>setRequests(prevReqs => prevReqs.map(r => r.id === id ? {...r, status, errorDetails,
  jsonCorrectionAttempts, questionsGeneratedCount} : r))\<close>, recorded in the events.
\<close>

definition setRequestsById ::
  "string \<Rightarrow> RequestStatus \<Rightarrow> string option \<Rightarrow> nat \<Rightarrow> nat \<Rightarrow> appState \<Rightarrow> appState" where
  "setRequestsById i st details corrections generated s =
     (let reqs = map (\<lambda>r. if rid r = i
                           then r\<lparr>status := st, errorDetails := details,
                                  jsonCorrectionAttempts := Some corrections,
                                  questionsGeneratedCount := Some generated\<rparr>
                           else r) (requests s)
      in s\<lparr>requests := reqs, events := events s @ [StatusSet i st reqs]\<rparr>)"

definition unknownGeminiError :: string where
  "unknownGeminiError = ''Error desconocido de Gemini.''"

text \<open>\<^verbatim>\<open>error.message || "Error desconocido de Gemini."\<close>\<close>

definition messageOrUnknown :: "thrown \<Rightarrow> string" where
  "messageOrUnknown err = (if message err = [] then unknownGeminiError else message err)"

text \<open>
  The \<^verbatim>\<open>while (overallAttempt < MAX_OVERALL_REQUEST_ATTEMPTS && !successInRequest)\<close> loop of
  one request. A successful attempt merges the questions, marks the request completed and
  ends the loop; a failed one keeps the message (or the fixed text when it is falsy) and,
  on the last attempt, marks the request failed.
\<close>

function attemptLoop ::
  "generation \<Rightarrow> GenerationRequest \<Rightarrow> nat \<Rightarrow> string option \<Rightarrow> nat \<Rightarrow> appState \<Rightarrow> appState" where
  "attemptLoop gen currentRequest overallAttempt lastOverallAttemptError totalCorrections s =
     (if overallAttempt < MAX_OVERALL_REQUEST_ATTEMPTS then
        (let s1 = s\<lparr>events := events s @ [GenerateCalled (rid currentRequest) overallAttempt]\<rparr>
         in case gen currentRequest overallAttempt lastOverallAttemptError of
              Inr (newQsFromGemini, corrections) \<Rightarrow>
                setRequestsById (rid currentRequest) Completed None corrections
                  (length newQsFromGemini)
                  (s1\<lparr>generatedQuestions := mergeQuestions newQsFromGemini (generatedQuestions s1)\<rparr>)
            | Inl err \<Rightarrow>
                (let lastError = messageOrUnknown err;
                     totalCorrections' = (case attemptsFromError err of Some n \<Rightarrow> n | None \<Rightarrow> totalCorrections);
                     s2 = (if overallAttempt = MAX_OVERALL_REQUEST_ATTEMPTS - 1
                           then setRequestsById (rid currentRequest) Error (Some lastError)
                                  totalCorrections' 0 s1
                           else s1)
                 in attemptLoop gen currentRequest (Suc overallAttempt) (Some lastError) totalCorrections' s2))
      else s)"
  by pat_completeness auto
termination
  by (relation "measure (\<lambda>(gen, r, n, e, t, s). MAX_OVERALL_REQUEST_ATTEMPTS - n)") auto

declare attemptLoop.simps [simp del]

text \<open>The body of the \<^verbatim>\<open>for\<close> loop over the selected requests.\<close>

definition processRequest :: "generation \<Rightarrow> appState \<Rightarrow> GenerationRequest \<Rightarrow> appState" where
  "processRequest gen s currentRequest =
     attemptLoop gen currentRequest 0 None 0
       (setRequestsById (rid currentRequest) Processing None 0 0 s)"

text \<open>
  The order of a run, as an acceptor of its events: with no request open, the next event
  sets the first request still to do to \<^const>\<open>Processing\<close> and opens it; with a request
  open, only calls of the generation for it may follow, until its status is set to
  \<^const>\<open>Completed\<close> or \<^const>\<open>Error\<close>, which closes it. The run ends with nothing open and
  nothing left to do.
\<close>

fun oneAtATime :: "string list \<Rightarrow> string option \<Rightarrow> event list \<Rightarrow> bool" where
  "oneAtATime todo None [] = (todo = [])"
| "oneAtATime todo (Some c) [] = False"
| "oneAtATime todo None (StatusSet i st snap # evs) =
     (case todo of
        [] \<Rightarrow> False
      | r # rest \<Rightarrow> i = r \<and> st = Processing \<and> oneAtATime rest (Some r) evs)"
| "oneAtATime todo None (GenerateCalled i n # evs) = False"
| "oneAtATime todo (Some c) (GenerateCalled i n # evs) = (i = c \<and> oneAtATime todo (Some c) evs)"
| "oneAtATime todo (Some c) (StatusSet i st snap # evs) =
     (i = c \<and> (st = Completed \<or> st = Error) \<and> oneAtATime todo None evs)"

text \<open>The requests of a snapshot that are in \<^const>\<open>Processing\<close> and belong to the run.\<close>

definition processingOfRun :: "string list \<Rightarrow> GenerationRequest list \<Rightarrow> GenerationRequest list" where
  "processingOfRun ids snap = filter (\<lambda>r. status r = Processing \<and> rid r \<in> set ids) snap"

fun snapshots :: "event list \<Rightarrow> GenerationRequest list list" where
  "snapshots [] = []"
| "snapshots (StatusSet i st snap # evs) = snap # snapshots evs"
| "snapshots (GenerateCalled i n # evs) = snapshots evs"

fun generateCalls :: "event list \<Rightarrow> (string \<times> nat) list" where
  "generateCalls [] = []"
| "generateCalls (StatusSet i st snap # evs) = generateCalls evs"
| "generateCalls (GenerateCalled i n # evs) = (i, n) # generateCalls evs"

definition pendingOrErrorRequests :: "appState \<Rightarrow> GenerationRequest list" where
  "pendingOrErrorRequests s = filter (\<lambda>r. status r = Pending \<or> status r = Error) (requests s)"

definition noApiKeyError :: string where
  "noApiKeyError =
     ''Error Cr'' @ [CHR 0xED] @
     ''tico: No se pudo determinar la API_KEY de Gemini. Configure '' @
     ''una clave en el entorno o a trav'' @ [CHR 0xE9] @ ''s de la configuraci'' @
     [CHR 0xF3] @ ''n de la aplicaci'' @ [CHR 0xF3] @ ''n.''"

text \<open>
  \<^verbatim>\<open>processQueue\<close>: without an API key (an empty one is falsy too) nothing is processed;
  otherwise the requests that are pending or failed are processed in the order of the
  queue, each to its end before the next.
\<close>

definition processQueue :: "string option \<Rightarrow> generation \<Rightarrow> appState \<Rightarrow> appState" where
  "processQueue apiKey gen s =
     (if apiKey = None \<or> apiKey = Some [] then
        s\<lparr>globalError := Some noApiKeyError, isProcessing := False\<rparr>
      else
        (foldl (processRequest gen) (s\<lparr>globalError := None, isProcessing := True\<rparr>)
           (pendingOrErrorRequests s))\<lparr>isProcessing := False\<rparr>)"

text \<open>The events a step adds to those of the state it starts from.\<close>

definition newEvents :: "appState \<Rightarrow> appState \<Rightarrow> event list" where
  "newEvents s s' = drop (length (events s)) (events s')"

text \<open>The state after the request has been set to \<^const>\<open>Processing\<close>.\<close>

definition started :: "appState \<Rightarrow> GenerationRequest \<Rightarrow> appState" where
  "started s cur = setRequestsById (rid cur) Processing None 0 0 s"

text \<open>The events one request adds, and what they leave of the other requests.\<close>

definition blockOf :: "string \<Rightarrow> GenerationRequest list \<Rightarrow> event list \<Rightarrow> bool" where
  "blockOf i reqs blk =
     (\<exists>snapP fin snapF calls.
        blk = StatusSet i Processing snapP # map (GenerateCalled i) calls @ [StatusSet i fin snapF] \<and>
        (fin = Completed \<or> fin = Error) \<and> (calls = [0] \<or> calls = [0, 1]) \<and>
        (\<forall>snap \<in> {snapP, snapF}. map rid snap = map rid reqs \<and>
           (\<forall>r \<in> set snap. rid r \<noteq> i \<longrightarrow> r \<in> set reqs)))"

section \<open>Sample values\<close>


definition demoQuestion :: "string \<Rightarrow> string \<Rightarrow> QuestionData" where
  "demoQuestion i p =
     \<lparr>qid = i, Pregunta = p, Opcion_correcta_1 = ''si'', Opcion_Correcta_2 = None,
      Opcion_Correcta_3 = None, Opcion_Incorrecta_1 = Some ''no'', Opcion_Incorrecta_2 = None,
      Opcion_Incorrecta_3 = None, Explicacion = Some []\<rparr>"

definition demoPrev :: "QuestionData list" where
  "demoPrev = [demoQuestion ''a'' ''uno'', demoQuestion ''b'' ''dos'']"

definition demoBatch :: "QuestionData list" where
  "demoBatch = [demoQuestion ''b'' ''dos bis'', demoQuestion ''gen-1'' ''tres'',
                demoQuestion ''gen-1'' ''cuatro'']"


definition demoRequest :: "string \<Rightarrow> RequestStatus \<Rightarrow> GenerationRequest" where
  "demoRequest i st =
     \<lparr>rid = i, prompt = ''tema'', status = st, errorDetails = None,
      jsonCorrectionAttempts = None, questionsGeneratedCount = None\<rparr>"

definition demoState :: appState where
  "demoState =
     \<lparr>requests = [demoRequest ''r1'' Pending, demoRequest ''r2'' Completed, demoRequest ''r3'' Error],
      generatedQuestions = demoPrev, globalError = None, isProcessing = False, events = []\<rparr>"

definition demoError :: "string \<Rightarrow> thrown" where
  "demoError m = \<lparr>message = m, attemptsFromError = None\<rparr>"

text \<open>
  A generation that fails once and then succeeds for the request \<open>r1\<close>, succeeds at once
  for \<open>r2\<close> and always fails for the others; and one that always throws an error with an
  empty message.
\<close>

definition demoGen :: generation where
  "demoGen r n e =
     (if rid r = ''r1'' then (if n = 0 then Inl (demoError ''sin red'') else Inr (demoBatch, 2))
      else if rid r = ''r2'' then Inr (demoBatch, 0)
      else Inl (demoError ''fallo''))"

definition silentGen :: generation where
  "silentGen r n e = Inl (demoError [])"


definition initialPreview :: previewState where
  "initialPreview = \<lparr>currentRawStream = [], geminiLiveThought = [], currentAnimatedPreviewText = None\<rparr>"

definition demoAnswer :: string where
  "demoAnswer =
     ''[{'' @ [CHR 0x22] @ ''Pregunta'' @ [CHR 0x22] @ '':'' @ [CHR 0x22] @ ''Q1'' @
     [CHR 0x22] @ '','' @ [CHR 0x22] @ ''Opci'' @ [CHR 0xF3] @ ''n correcta 1'' @
     [CHR 0x22] @ '':'' @ [CHR 0x22] @ ''A'' @ [CHR 0x22] @ '','' @ [CHR 0x22] @
     ''Explicaci'' @ [CHR 0xF3] @ ''n'' @ [CHR 0x22] @ '':null}]''"

definition demoFencedAnswer :: string where
  "demoFencedAnswer =
     [CHR 0x60, CHR 0x60, CHR 0x60] @ ''json'' @ [CHR 0x0A] @ ''[{'' @ [CHR 0x22] @
     ''Pregunta'' @ [CHR 0x22] @ '':'' @ [CHR 0x22] @ ''Q1'' @ [CHR 0x22] @ '','' @
     [CHR 0x22] @ ''Opci'' @ [CHR 0xF3] @ ''n correcta 1'' @ [CHR 0x22] @ '':'' @
     [CHR 0x22] @ ''A'' @ [CHR 0x22] @ '','' @ [CHR 0x22] @ ''Explicaci'' @
     [CHR 0xF3] @ ''n'' @ [CHR 0x22] @ '':null}]'' @
     [CHR 0x0A, CHR 0x60, CHR 0x60, CHR 0x60]"

definition demoChunks :: "string list" where
  "demoChunks =
    [''[{'' @ [CHR 0x22] @ ''Pregunta'' @ [CHR 0x22] @ '':'',
     [CHR 0x22] @ ''Q1'' @ [CHR 0x22]]"

text \<open>
  A parser that knows one text, a model that answers the first correction with a blank
  text and the later ones with the fenced array, and a fixed stamp for new ids.
\<close>

definition demoEnv :: env where
  "demoEnv =
     \<lparr>jsonParse = (\<lambda>s. if s = demoAnswer
                        then Inr (JArr [JObj [(key_Pregunta, JStr ''Q1''),
                                              (key_Opcion_correcta_1, JStr ''A''),
                                              (key_Explicacion, JNull)]])
                        else Inl ''Unexpected end of JSON input''),
      generateContent = (\<lambda>k prompt. if k = 1 then Inr (Some '' '') else Inr (Some demoFencedAnswer)),
      newIdStamp = (\<lambda>k i. ''1700000000000-k3x9q2a'')\<rparr>"

text \<open>The same, with a model whose responses to the correction prompts carry no text.\<close>

definition noTextEnv :: env where
  "noTextEnv = demoEnv\<lparr>generateContent := (\<lambda>k prompt. Inr None)\<rparr>"

definition demoParsedQuestion :: QuestionData where
  "demoParsedQuestion =
     \<lparr>qid = ''gen-1700000000000-k3x9q2a'', Pregunta = ''Q1'', Opcion_correcta_1 = ''A'',
      Opcion_Correcta_2 = None, Opcion_Correcta_3 = None, Opcion_Incorrecta_1 = None,
      Opcion_Incorrecta_2 = None, Opcion_Incorrecta_3 = None, Explicacion = Some []\<rparr>"

definition demoRun ::
  "((string + string \<times> QuestionData list \<times> nat) \<times> attempt list) \<times> previewState" where
  "demoRun = generateQuestionsFromGemini demoEnv ''clave'' ''tema'' demoChunks None initialPreview"

definition noTextRun ::
  "((string + string \<times> QuestionData list \<times> nat) \<times> attempt list) \<times> previewState" where
  "noTextRun = generateQuestionsFromGemini noTextEnv ''clave'' ''tema'' demoChunks None initialPreview"

definition escapedQuoteChunks :: "string list" where
  "escapedQuoteChunks =
    [''[{'' @ [CHR 0x22] @ ''Pregunta'' @ [CHR 0x22] @ '':'' @ [CHR 0x22] @ ''Di '' @
     [CHR 0x5C, CHR 0x22] @ ''ho'',
     ''la'' @ [CHR 0x5C, CHR 0x22, CHR 0x22] @ '','' @ [CHR 0x22] @ ''id'' @
     [CHR 0x22] @ '':'' @ [CHR 0x22] @ ''7'' @ [CHR 0x22] @ ''}]'']"

definition escapedQuoteRaw :: string where
  "escapedQuoteRaw =
     ''Di '' @ [CHR 0x5C, CHR 0x22] @ ''hola'' @ [CHR 0x5C, CHR 0x22]"

definition escapedQuoteValue :: string where
  "escapedQuoteValue =
     ''Di '' @ [CHR 0x22] @ ''hola'' @ [CHR 0x22]"

definition markerValueChunk :: string where
  "markerValueChunk =
     ''[{'' @ [CHR 0x22] @ ''Pregunta'' @ [CHR 0x22] @ '':'' @ [CHR 0x22] @ ''Q1'' @
     [CHR 0x22] @ '','' @ [CHR 0x22] @ ''id'' @ [CHR 0x22] @ '':'' @ [CHR 0x22] @
     ''Pregunta'' @ [CHR 0x22] @ ''}]''"

text \<open>A value of 71 characters, with characters that are escaped, in one chunk.\<close>

definition longValueChunk :: string where
  "longValueChunk =
     ''[{'' @ [CHR 0x22] @ ''Pregunta'' @ [CHR 0x22] @ '': '' @ [CHR 0x22] @
     ''a<b & c>d '' @ replicate 61 (CHR ''x'')"

text \<open>A queue in which two pending requests carry the same id.\<close>

definition twinState :: appState where
  "twinState =
     \<lparr>requests = [demoRequest ''r1'' Pending, demoRequest ''r1'' Pending],
      generatedQuestions = [], globalError = None, isProcessing = False, events = []\<rparr>"

lemmas demo_defs = demoState_def demoRequest_def demoGen_def demoError_def silentGen_def
  demoPrev_def demoBatch_def demoQuestion_def

section \<open>Properties of the CSV export and the line parser\<close>

subsection \<open>One step of the scanning loop\<close>
















subsection \<open>The layout of the export\<close>

lemma doubleQuotes_concat: "doubleQuotes s = concat (map (\<lambda>c. if c = dq then [dq, dq] else [c]) s)"
  by (induction s) simp_all

lemma specField_eq: "specField v = escapeCsvField v"
  by (simp add: specField_def escapeCsvField_def doubleQuotes_concat split: option.splits)

lemma join_cons: "join sep (x # xs) = x @ concat (map (\<lambda>y. sep @ y) xs)"
  by (induction xs arbitrary: x) simp_all

lemma headerRow_eq: "headerRow = specHeader"
  by (simp add: headerRow_def specHeader_def CSV_HEADERS_def comma_def)

lemma specRow_eq: "join [comma] (map escapeCsvField (csvFields q)) = specRow q"
  by (simp add: specRow_def csvFields_def specField_eq)


text \<open>
  C7. For every list of questions, \<^const>\<open>generateCsvString\<close> gives the header names joined by
  commas as the first line, then one row per question in the order of the list; a row
  holds the eight fields, a field being quoted with its double quotes doubled exactly when
  it contains a comma, a double quote or a newline, and empty when the value is absent or
  empty.
\<close>

theorem generateCsvString_layout: "generateCsvString questions = specCsv questions"
  by (simp add: generateCsvString_def specCsv_def join_cons dataRows_def headerRow_eq specRow_eq
      comp_def)


section \<open>Properties of the merge of a batch\<close>

lemma find_qid: "find (\<lambda>nq. qid nq = i) new = Some rv \<Longrightarrow> rv \<in> set new \<and> qid rv = i"
  by (induction new) (auto split: if_splits)

lemma find_None_qid: "find (\<lambda>nq. qid nq = i) new = None \<longleftrightarrow> i \<notin> qid ` set new"
  by (induction new) auto

lemma length_rewriteExisting: "length (rewriteExisting new prev) = length prev"
  by (simp add: rewriteExisting_def)

lemma qid_rewriteExisting: "map qid (rewriteExisting new prev) = map qid prev"
  by (auto simp: rewriteExisting_def dest: find_qid split: option.splits)

lemma addNewQuestions_shape:
  "\<exists>ext. addNewQuestions P nqs ul = ul @ ext \<and> set ext \<subseteq> set nqs
         \<and> (\<forall>q \<in> set ext. qid q \<notin> qid ` set ul) \<and> distinct (map qid ext)"
proof (induction nqs arbitrary: ul)
  case Nil
  then show ?case by simp
next
  case (Cons nq nqs)
  show ?case
  proof (cases "qid nq \<notin> P \<and> \<not> (\<exists>uq \<in> set ul. qid uq = qid nq)")
    case True
    from Cons.IH [of "ul @ [nq]"] obtain ext where
      e: "addNewQuestions P nqs (ul @ [nq]) = (ul @ [nq]) @ ext" "set ext \<subseteq> set nqs"
         "\<forall>q \<in> set ext. qid q \<notin> qid ` set (ul @ [nq])" "distinct (map qid ext)"
      by blast
    have "addNewQuestions P (nq # nqs) ul = ul @ (nq # ext)"
      using True e(1) by simp
    moreover have "set (nq # ext) \<subseteq> set (nq # nqs)" using e(2) by auto
    moreover have "\<forall>q \<in> set (nq # ext). qid q \<notin> qid ` set ul" using True e(3) by auto
    moreover have "distinct (map qid (nq # ext))" using e(3,4) by auto
    ultimately show ?thesis by blast
  next
    case False
    from Cons.IH [of ul] obtain ext where
      e: "addNewQuestions P nqs ul = ul @ ext" "set ext \<subseteq> set nqs"
         "\<forall>q \<in> set ext. qid q \<notin> qid ` set ul" "distinct (map qid ext)"
      by blast
    have "addNewQuestions P (nq # nqs) ul = ul @ ext"
      using False e(1) by auto
    moreover have "set ext \<subseteq> set (nq # nqs)" using e(2) by auto
    ultimately show ?thesis using e(3,4) by blast
  qed
qed

lemma mergeQuestions_shape:
  "\<exists>ext. mergeQuestions new prev = rewriteExisting new prev @ ext \<and> set ext \<subseteq> set new
         \<and> (\<forall>q \<in> set ext. qid q \<notin> qid ` set prev) \<and> distinct (map qid ext)"
proof -
  have "qid ` set (rewriteExisting new prev) = qid ` set prev"
    using qid_rewriteExisting [of new prev] by (metis set_map)
  then show ?thesis
    using addNewQuestions_shape [of "processedIdsFromGemini new prev" new "rewriteExisting new prev"]
    by (simp add: mergeQuestions_def)
qed


text \<open>
  C10. Merging a batch into the list of generated questions: a question of the list whose
  id is not in the batch stays as it is at its position; one whose id is in the batch is
  replaced, at its position, by the (first) batch question of that id; the questions
  appended are batch questions whose id was not in the list, with distinct ids; so the
  ids of the old positions are unchanged and a list without duplicate ids stays so.
\<close>

theorem mergeQuestions_frame:
  "length prev \<le> length (mergeQuestions new prev) \<and>
   (\<forall>i < length prev.
      (qid (prev ! i) \<notin> qid ` set new \<longrightarrow> mergeQuestions new prev ! i = prev ! i) \<and>
      (qid (prev ! i) \<in> qid ` set new \<longrightarrow>
         find (\<lambda>nq. qid nq = qid (prev ! i)) new = Some (mergeQuestions new prev ! i))) \<and>
   (\<forall>q \<in> set (drop (length prev) (mergeQuestions new prev)).
      q \<in> set new \<and> qid q \<notin> qid ` set prev) \<and>
   distinct (map qid (drop (length prev) (mergeQuestions new prev))) \<and>
   take (length prev) (map qid (mergeQuestions new prev)) = map qid prev \<and>
   (distinct (map qid prev) \<longrightarrow> distinct (map qid (mergeQuestions new prev)))"
proof -
  obtain ext where
    e: "mergeQuestions new prev = rewriteExisting new prev @ ext" "set ext \<subseteq> set new"
       "\<forall>q \<in> set ext. qid q \<notin> qid ` set prev" "distinct (map qid ext)"
    using mergeQuestions_shape by blast
  have len: "length (rewriteExisting new prev) = length prev"
    by (rule length_rewriteExisting)
  have ids: "map qid (rewriteExisting new prev) = map qid prev"
    by (rule qid_rewriteExisting)
  have nth: "mergeQuestions new prev ! i = rewriteExisting new prev ! i" if "i < length prev" for i
    using that e(1) len by (simp add: nth_append)
  have a: "length prev \<le> length (mergeQuestions new prev)"
    using e(1) len by simp
  have b: "qid (prev ! i) \<notin> qid ` set new \<longrightarrow> mergeQuestions new prev ! i = prev ! i"
    if "i < length prev" for i
    using that nth [OF that] find_None_qid [of "qid (prev ! i)" new]
    by (auto simp: rewriteExisting_def)
  have c: "qid (prev ! i) \<in> qid ` set new \<longrightarrow>
           find (\<lambda>nq. qid nq = qid (prev ! i)) new = Some (mergeQuestions new prev ! i)"
    if "i < length prev" for i
  proof
    assume "qid (prev ! i) \<in> qid ` set new"
    then obtain rv where "find (\<lambda>nq. qid nq = qid (prev ! i)) new = Some rv"
      using find_None_qid [of "qid (prev ! i)" new] by (cases "find (\<lambda>nq. qid nq = qid (prev ! i)) new") auto
    then show "find (\<lambda>nq. qid nq = qid (prev ! i)) new = Some (mergeQuestions new prev ! i)"
      using that nth [OF that] by (simp add: rewriteExisting_def)
  qed
  have d: "drop (length prev) (mergeQuestions new prev) = ext"
    using e(1) len by simp
  have f: "take (length prev) (map qid (mergeQuestions new prev)) = map qid prev"
    using e(1) len ids by (simp add: take_map)
  have g: "distinct (map qid prev) \<longrightarrow> distinct (map qid (mergeQuestions new prev))"
  proof
    assume "distinct (map qid prev)"
    moreover have "set (map qid prev) \<inter> set (map qid ext) = {}"
    proof (rule ccontr)
      assume "set (map qid prev) \<inter> set (map qid ext) \<noteq> {}"
      then obtain x where x: "x \<in> qid ` set prev" "x \<in> qid ` set ext" by auto
      from x(2) obtain q where "q \<in> set ext" "qid q = x" by auto
      with e(3) x(1) show False by blast
    qed
    ultimately show "distinct (map qid (mergeQuestions new prev))"
      using e(1,4) ids by simp
  qed
  show ?thesis
    using a b c d e(2,3,4) f g by (simp add: subset_iff)
qed

theorem mergeQuestions_frame_witness:
  "(0::nat) < length demoPrev \<and> qid (demoPrev ! 0) \<notin> qid ` set demoBatch \<and>
   mergeQuestions demoBatch demoPrev ! 0 = demoPrev ! 0 \<and>
   1 < length demoPrev \<and> qid (demoPrev ! 1) \<in> qid ` set demoBatch \<and>
   find (\<lambda>nq. qid nq = qid (demoPrev ! 1)) demoBatch = Some (mergeQuestions demoBatch demoPrev ! 1) \<and>
   demoQuestion ''gen-1'' ''tres'' \<in> set (drop (length demoPrev) (mergeQuestions demoBatch demoPrev)) \<and>
   distinct (map qid demoPrev) \<and> distinct (map qid (mergeQuestions demoBatch demoPrev))"
  using mergeQuestions_frame [of demoPrev demoBatch]
  by (simp add: mergeQuestions_def rewriteExisting_def processedIdsFromGemini_def demoBatch_def
      demoPrev_def demoQuestion_def)


section \<open>Properties of the request queue\<close>

subsection \<open>The attempts of one request\<close>

lemma attemptLoop_unfold:
  "attemptLoop gen cur 0 None 0 s =
     (let s1 = s\<lparr>events := events s @ [GenerateCalled (rid cur) 0]\<rparr> in
      case gen cur 0 None of
        Inr (qs, n) \<Rightarrow>
          setRequestsById (rid cur) Completed None n (length qs)
            (s1\<lparr>generatedQuestions := mergeQuestions qs (generatedQuestions s1)\<rparr>)
      | Inl e0 \<Rightarrow>
          (let t0 = (case attemptsFromError e0 of Some k \<Rightarrow> k | None \<Rightarrow> 0);
               s2 = s1\<lparr>events := events s1 @ [GenerateCalled (rid cur) 1]\<rparr> in
           case gen cur 1 (Some (messageOrUnknown e0)) of
             Inr (qs, n) \<Rightarrow>
               setRequestsById (rid cur) Completed None n (length qs)
                 (s2\<lparr>generatedQuestions := mergeQuestions qs (generatedQuestions s2)\<rparr>)
           | Inl e1 \<Rightarrow>
               setRequestsById (rid cur) Error (Some (messageOrUnknown e1))
                 (case attemptsFromError e1 of Some k \<Rightarrow> k | None \<Rightarrow> t0) 0 s2))"
  by (simp add: attemptLoop.simps [of _ _ 0] attemptLoop.simps [of _ _ "Suc 0"]
      attemptLoop.simps [of _ _ "Suc (Suc 0)"] MAX_OVERALL_REQUEST_ATTEMPTS_def Let_def
      split: sum.splits prod.splits)

lemma rid_setRequestsById [simp]:
  "map rid (requests (setRequestsById i st d c g s)) = map rid (requests s)"
  by (simp add: setRequestsById_def Let_def comp_def if_distrib)

lemma events_setRequestsById:
  "events (setRequestsById i st d c g s)
   = events s @ [StatusSet i st (requests (setRequestsById i st d c g s))]"
  by (simp add: setRequestsById_def Let_def)

lemma generatedQuestions_setRequestsById [simp]:
  "generatedQuestions (setRequestsById i st d c g s) = generatedQuestions s"
  by (simp add: setRequestsById_def Let_def)

lemma requests_setRequestsById:
  "requests (setRequestsById i st d c g s)
   = map (\<lambda>r. if rid r = i
                then r\<lparr>status := st, errorDetails := d, jsonCorrectionAttempts := Some c,
                       questionsGeneratedCount := Some g\<rparr>
                else r) (requests s)"
  by (simp add: setRequestsById_def Let_def)

lemma own_setRequestsById:
  assumes "r \<in> set (requests (setRequestsById i st d c g s))" "rid r = i"
  shows "status r = st \<and> errorDetails r = d"
proof -
  from assms(1) obtain x where x: "x \<in> set (requests s)"
    "r = (if rid x = i
          then x\<lparr>status := st, errorDetails := d, jsonCorrectionAttempts := Some c,
                 questionsGeneratedCount := Some g\<rparr>
          else x)"
    unfolding requests_setRequestsById by auto
  show ?thesis
  proof (cases "rid x = i")
    case True
    then show ?thesis using x(2) by simp
  next
    case False
    then show ?thesis using x(2) assms(2) by simp
  qed
qed

lemma other_setRequestsById:
  assumes "r \<in> set (requests (setRequestsById i st d c g s))" "rid r \<noteq> i"
  shows "r \<in> set (requests s)"
proof -
  from assms(1) obtain x where x: "x \<in> set (requests s)"
    "r = (if rid x = i
          then x\<lparr>status := st, errorDetails := d, jsonCorrectionAttempts := Some c,
                 questionsGeneratedCount := Some g\<rparr>
          else x)"
    unfolding requests_setRequestsById by auto
  show ?thesis
  proof (cases "rid x = i")
    case True
    then show ?thesis using x(2) assms(2) by simp
  next
    case False
    then show ?thesis using x by simp
  qed
qed

lemma processRequest_first:
  assumes "gen cur 0 None = Inr (qs, n)"
  shows "processRequest gen s cur =
     setRequestsById (rid cur) Completed None n (length qs)
       ((started s cur)\<lparr>events := events (started s cur) @ [GenerateCalled (rid cur) 0],
          generatedQuestions := mergeQuestions qs (generatedQuestions s)\<rparr>)"
  using assms by (simp add: processRequest_def attemptLoop_unfold started_def Let_def)

lemma processRequest_second:
  assumes "gen cur 0 None = Inl e0" "gen cur 1 (Some (messageOrUnknown e0)) = Inr (qs, n)"
  shows "processRequest gen s cur =
     setRequestsById (rid cur) Completed None n (length qs)
       ((started s cur)\<lparr>events := events (started s cur) @
            [GenerateCalled (rid cur) 0, GenerateCalled (rid cur) 1],
          generatedQuestions := mergeQuestions qs (generatedQuestions s)\<rparr>)"
  using assms by (simp add: processRequest_def attemptLoop_unfold started_def Let_def)

lemma processRequest_failed:
  assumes "gen cur 0 None = Inl e0" "gen cur 1 (Some (messageOrUnknown e0)) = Inl e1"
  shows "processRequest gen s cur =
     setRequestsById (rid cur) Error (Some (messageOrUnknown e1))
       (case attemptsFromError e1 of Some k \<Rightarrow> k
        | None \<Rightarrow> (case attemptsFromError e0 of Some k \<Rightarrow> k | None \<Rightarrow> 0)) 0
       ((started s cur)\<lparr>events := events (started s cur) @
            [GenerateCalled (rid cur) 0, GenerateCalled (rid cur) 1]\<rparr>)"
  using assms by (simp add: processRequest_def attemptLoop_unfold started_def Let_def)

lemma processRequest_cases:
  obtains (first) qs n where "gen cur 0 None = Inr (qs, n)"
  | (second) e0 qs n where "gen cur 0 None = Inl e0"
      "gen cur 1 (Some (messageOrUnknown e0)) = Inr (qs, n)"
  | (failed) e0 e1 where "gen cur 0 None = Inl e0"
      "gen cur 1 (Some (messageOrUnknown e0)) = Inl e1"
proof (cases "gen cur 0 None")
  case (Inr a)
  then show ?thesis using first by (cases a) auto
next
  case (Inl e0)
  show ?thesis
  proof (cases "gen cur 1 (Some (messageOrUnknown e0))")
    case (Inr a)
    then show ?thesis using second Inl by (cases a) auto
  next
    case Inl2: (Inl e1)
    then show ?thesis using failed Inl by auto
  qed
qed

lemma requests_started_other:
  "r \<in> set (requests (started s cur)) \<Longrightarrow> rid r \<noteq> rid cur \<Longrightarrow> r \<in> set (requests s)"
  unfolding started_def by (rule other_setRequestsById)

lemma rid_started [simp]: "map rid (requests (started s cur)) = map rid (requests s)"
  by (simp add: started_def)

lemma events_started:
  "events (started s cur) = events s @ [StatusSet (rid cur) Processing (requests (started s cur))]"
  unfolding started_def by (rule events_setRequestsById)

lemma generatedQuestions_started [simp]: "generatedQuestions (started s cur) = generatedQuestions s"
  by (simp add: started_def)

lemma rid_processRequest [simp]: "map rid (requests (processRequest gen s cur)) = map rid (requests s)"
proof (cases rule: processRequest_cases [of gen cur])
  case (first qs n)
  then show ?thesis using processRequest_first [of gen cur qs n s] by simp
next
  case (second e0 qs n)
  then show ?thesis using processRequest_second [of gen cur e0 qs n s] by simp
next
  case (failed e0 e1)
  then show ?thesis using processRequest_failed [of gen cur e0 e1 s] by simp
qed

lemma snapshots_append [simp]: "snapshots (xs @ ys) = snapshots xs @ snapshots ys"
  by (induction xs rule: snapshots.induct) simp_all

lemma generateCalls_append [simp]: "generateCalls (xs @ ys) = generateCalls xs @ generateCalls ys"
  by (induction xs rule: generateCalls.induct) simp_all


text \<open>
  C5. If all overall attempts for a request fail, the request leaves the list of generated
  questions as it was: the list is written only after an attempt that returned.
\<close>

theorem failed_request_keeps_questions:
  assumes "gen cur 0 None = Inl e0" and "gen cur 1 (Some (messageOrUnknown e0)) = Inl e1"
  shows "generatedQuestions (processRequest gen s cur) = generatedQuestions s"
  using processRequest_failed [of gen cur e0 e1 s] assms by simp

theorem failed_request_keeps_questions_witness:
  "demoGen (demoRequest ''r3'' Error) 0 None = Inl (demoError ''fallo'') \<and>
   demoGen (demoRequest ''r3'' Error) 1 (Some (messageOrUnknown (demoError ''fallo'')))
     = Inl (demoError ''fallo'') \<and>
   generatedQuestions (processRequest demoGen demoState (demoRequest ''r3'' Error)) = demoPrev"
  using failed_request_keeps_questions
    [of demoGen "demoRequest ''r3'' Error" "demoError ''fallo''" "demoError ''fallo''" demoState]
  by (simp add: demo_defs)


text \<open>
  C2, as stated, at a request whose two attempts throw an error with an empty message: the
  request is set to \<^const>\<open>Error\<close>, but \<^const>\<open>errorDetails\<close> holds the fixed text
  \<^const>\<open>unknownGeminiError\<close>, not the (empty) message of the last error.
\<close>

theorem processRequest_error_details_counterexample:
  "silentGen (demoRequest ''r1'' Pending) 0 None = Inl (demoError []) \<and>
   silentGen (demoRequest ''r1'' Pending) 1 (Some unknownGeminiError) = Inl (demoError []) \<and>
   map status (requests (processRequest silentGen demoState (demoRequest ''r1'' Pending)))
     = [Error, Completed, Error] \<and>
   errorDetails (hd (requests (processRequest silentGen demoState (demoRequest ''r1'' Pending))))
     = Some ''Error desconocido de Gemini.'' \<and>
   errorDetails (hd (requests (processRequest silentGen demoState (demoRequest ''r1'' Pending))))
     \<noteq> Some (message (demoError []))"
  by (simp add: demo_defs processRequest_def attemptLoop_unfold setRequestsById_def
      messageOrUnknown_def unknownGeminiError_def Let_def)


text \<open>
  C2, amended. For every request at most \<^const>\<open>MAX_OVERALL_REQUEST_ATTEMPTS\<close> calls of the
  generation are made, and the ids of the queue are unchanged. If both attempts throw, every
  request of that id is set to \<^const>\<open>Error\<close> and its \<^const>\<open>errorDetails\<close> hold the message of
  the last error, or the fixed text \<^const>\<open>unknownGeminiError\<close> when that message is empty.
  If the first attempt returns, it is the only call and the request is set to
  \<^const>\<open>Completed\<close>; if the first throws and the second returns, there are two calls and the
  request is set to \<^const>\<open>Completed\<close>.
\<close>

theorem processRequest_attempts:
  "length (generateCalls (newEvents s (processRequest gen s cur))) \<le> MAX_OVERALL_REQUEST_ATTEMPTS \<and>
   map rid (requests (processRequest gen s cur)) = map rid (requests s) \<and>
   (gen cur 0 None = Inl e0 \<and> gen cur 1 (Some (messageOrUnknown e0)) = Inl e1 \<longrightarrow>
      generateCalls (newEvents s (processRequest gen s cur)) = [(rid cur, 0), (rid cur, 1)] \<and>
      (\<forall>r \<in> set (requests (processRequest gen s cur)). rid r = rid cur \<longrightarrow>
         status r = Error \<and> errorDetails r = Some (messageOrUnknown e1))) \<and>
   (gen cur 0 None = Inr (qs, n) \<longrightarrow>
      generateCalls (newEvents s (processRequest gen s cur)) = [(rid cur, 0)] \<and>
      (\<forall>r \<in> set (requests (processRequest gen s cur)). rid r = rid cur \<longrightarrow>
         status r = Completed)) \<and>
   (gen cur 0 None = Inl e0 \<and> gen cur 1 (Some (messageOrUnknown e0)) = Inr (qs, n) \<longrightarrow>
      generateCalls (newEvents s (processRequest gen s cur)) = [(rid cur, 0), (rid cur, 1)] \<and>
      (\<forall>r \<in> set (requests (processRequest gen s cur)). rid r = rid cur \<longrightarrow>
         status r = Completed))"
proof -
  have a: "length (generateCalls (newEvents s (processRequest gen s cur))) \<le> MAX_OVERALL_REQUEST_ATTEMPTS"
  proof (cases rule: processRequest_cases [of gen cur])
    case (first qs n)
    then show ?thesis using processRequest_first [of gen cur qs n s]
      by (simp add: newEvents_def events_setRequestsById events_started MAX_OVERALL_REQUEST_ATTEMPTS_def)
  next
    case (second e0 qs n)
    then show ?thesis using processRequest_second [of gen cur e0 qs n s]
      by (simp add: newEvents_def events_setRequestsById events_started MAX_OVERALL_REQUEST_ATTEMPTS_def)
  next
    case (failed e0 e1)
    then show ?thesis using processRequest_failed [of gen cur e0 e1 s]
      by (simp add: newEvents_def events_setRequestsById events_started MAX_OVERALL_REQUEST_ATTEMPTS_def)
  qed
  have b: "generateCalls (newEvents s (processRequest gen s cur)) = [(rid cur, 0), (rid cur, 1)] \<and>
      (\<forall>r \<in> set (requests (processRequest gen s cur)). rid r = rid cur \<longrightarrow>
         status r = Error \<and> errorDetails r = Some (messageOrUnknown e1))"
    if "gen cur 0 None = Inl e0" "gen cur 1 (Some (messageOrUnknown e0)) = Inl e1"
    using processRequest_failed [of gen cur e0 e1 s] that own_setRequestsById
    by (simp add: newEvents_def events_setRequestsById events_started)
  have c: "generateCalls (newEvents s (processRequest gen s cur)) = [(rid cur, 0)] \<and>
      (\<forall>r \<in> set (requests (processRequest gen s cur)). rid r = rid cur \<longrightarrow>
         status r = Completed)"
    if "gen cur 0 None = Inr (qs, n)"
    using processRequest_first [of gen cur qs n s] that own_setRequestsById
    by (simp add: newEvents_def events_setRequestsById events_started)
  have d: "generateCalls (newEvents s (processRequest gen s cur)) = [(rid cur, 0), (rid cur, 1)] \<and>
      (\<forall>r \<in> set (requests (processRequest gen s cur)). rid r = rid cur \<longrightarrow>
         status r = Completed)"
    if "gen cur 0 None = Inl e0" "gen cur 1 (Some (messageOrUnknown e0)) = Inr (qs, n)"
    using processRequest_second [of gen cur e0 qs n s] that own_setRequestsById
    by (simp add: newEvents_def events_setRequestsById events_started)
  show ?thesis using a b c d by simp
qed

theorem processRequest_attempts_witness:
  "demoGen (demoRequest ''r3'' Error) 0 None = Inl (demoError ''fallo'') \<and>
   demoGen (demoRequest ''r3'' Error) 1 (Some (messageOrUnknown (demoError ''fallo'')))
     = Inl (demoError ''fallo'') \<and>
   generateCalls (newEvents demoState (processRequest demoGen demoState (demoRequest ''r3'' Error)))
     = [(''r3'', 0), (''r3'', 1)] \<and>
   list_all (\<lambda>r. rid r \<noteq> ''r3'' \<or> status r = Error \<and> errorDetails r = Some ''fallo'')
     (requests (processRequest demoGen demoState (demoRequest ''r3'' Error))) \<and>
   demoGen (demoRequest ''r2'' Completed) 0 None = Inr (demoBatch, 0) \<and>
   generateCalls (newEvents demoState (processRequest demoGen demoState (demoRequest ''r2'' Completed)))
     = [(''r2'', 0)] \<and>
   demoGen (demoRequest ''r1'' Pending) 0 None = Inl (demoError ''sin red'') \<and>
   demoGen (demoRequest ''r1'' Pending) 1 (Some (messageOrUnknown (demoError ''sin red'')))
     = Inr (demoBatch, 2) \<and>
   generateCalls (newEvents demoState (processRequest demoGen demoState (demoRequest ''r1'' Pending)))
     = [(''r1'', 0), (''r1'', 1)] \<and>
   list_all (\<lambda>r. rid r \<noteq> ''r1'' \<or> status r = Completed)
     (requests (processRequest demoGen demoState (demoRequest ''r1'' Pending)))"
  using processRequest_attempts
    [of demoState demoGen "demoRequest ''r3'' Error" "demoError ''fallo''" "demoError ''fallo''"]
    processRequest_attempts
    [of demoState demoGen "demoRequest ''r2'' Completed" _ _ demoBatch 0]
    processRequest_attempts
    [of demoState demoGen "demoRequest ''r1'' Pending" "demoError ''sin red''" _ demoBatch 2]
  by (simp add: demo_defs list_all_iff messageOrUnknown_def)


subsection \<open>The order of a run\<close>

lemma blockOfI:
  assumes "blk = StatusSet i Processing snapP # map (GenerateCalled i) calls @ [StatusSet i fin snapF]"
    "fin = Completed \<or> fin = Error" "calls = [0] \<or> calls = [0, 1]"
    "map rid snapP = map rid reqs" "\<And>r. r \<in> set snapP \<Longrightarrow> rid r \<noteq> i \<Longrightarrow> r \<in> set reqs"
    "map rid snapF = map rid reqs" "\<And>r. r \<in> set snapF \<Longrightarrow> rid r \<noteq> i \<Longrightarrow> r \<in> set reqs"
  shows "blockOf i reqs blk"
  unfolding blockOf_def using assms by blast

lemma processRequest_block:
  "\<exists>blk. events (processRequest gen s cur) = events s @ blk \<and> blockOf (rid cur) (requests s) blk"
proof (cases rule: processRequest_cases [of gen cur])
  case (first qs n)
  let ?m = "(started s cur)\<lparr>events := events (started s cur) @ [GenerateCalled (rid cur) 0],
          generatedQuestions := mergeQuestions qs (generatedQuestions s)\<rparr>"
  let ?f = "setRequestsById (rid cur) Completed None n (length qs) ?m"
  have pr: "processRequest gen s cur = ?f" using first processRequest_first [of gen cur qs n s] by simp
  have ev: "events ?f = events s @ StatusSet (rid cur) Processing (requests (started s cur))
              # map (GenerateCalled (rid cur)) [0] @ [StatusSet (rid cur) Completed (requests ?f)]"
    by (simp add: events_setRequestsById events_started)
  have oth: "r \<in> set (requests s)" if "r \<in> set (requests ?f)" "rid r \<noteq> rid cur" for r
    using other_setRequestsById [OF that] requests_started_other [of r s cur] that(2) by simp
  have "blockOf (rid cur) (requests s)
          (StatusSet (rid cur) Processing (requests (started s cur))
              # map (GenerateCalled (rid cur)) [0] @ [StatusSet (rid cur) Completed (requests ?f)])"
    by (rule blockOfI [OF refl]) (simp_all add: requests_started_other oth)
  then show ?thesis using pr ev by simp
next
  case (second e0 qs n)
  let ?m = "(started s cur)\<lparr>events := events (started s cur) @
            [GenerateCalled (rid cur) 0, GenerateCalled (rid cur) 1],
          generatedQuestions := mergeQuestions qs (generatedQuestions s)\<rparr>"
  let ?f = "setRequestsById (rid cur) Completed None n (length qs) ?m"
  have pr: "processRequest gen s cur = ?f" using second processRequest_second [of gen cur e0 qs n s] by simp
  have ev: "events ?f = events s @ StatusSet (rid cur) Processing (requests (started s cur))
              # map (GenerateCalled (rid cur)) [0, 1] @ [StatusSet (rid cur) Completed (requests ?f)]"
    by (simp add: events_setRequestsById events_started)
  have oth: "r \<in> set (requests s)" if "r \<in> set (requests ?f)" "rid r \<noteq> rid cur" for r
    using other_setRequestsById [OF that] requests_started_other [of r s cur] that(2) by simp
  have "blockOf (rid cur) (requests s)
          (StatusSet (rid cur) Processing (requests (started s cur))
              # map (GenerateCalled (rid cur)) [0, 1] @ [StatusSet (rid cur) Completed (requests ?f)])"
    by (rule blockOfI [OF refl]) (simp_all add: requests_started_other oth)
  then show ?thesis using pr ev by simp
next
  case (failed e0 e1)
  let ?m = "(started s cur)\<lparr>events := events (started s cur) @
            [GenerateCalled (rid cur) 0, GenerateCalled (rid cur) 1]\<rparr>"
  let ?t = "case attemptsFromError e1 of Some k \<Rightarrow> k
        | None \<Rightarrow> (case attemptsFromError e0 of Some k \<Rightarrow> k | None \<Rightarrow> 0)"
  let ?f = "setRequestsById (rid cur) Error (Some (messageOrUnknown e1)) ?t 0 ?m"
  have pr: "processRequest gen s cur = ?f" using failed processRequest_failed [of gen cur e0 e1 s] by simp
  have ev: "events ?f = events s @ StatusSet (rid cur) Processing (requests (started s cur))
              # map (GenerateCalled (rid cur)) [0, 1] @ [StatusSet (rid cur) Error (requests ?f)]"
    by (simp add: events_setRequestsById events_started)
  have oth: "r \<in> set (requests s)" if "r \<in> set (requests ?f)" "rid r \<noteq> rid cur" for r
    using other_setRequestsById [OF that] requests_started_other [of r s cur] that(2) by simp
  have "blockOf (rid cur) (requests s)
          (StatusSet (rid cur) Processing (requests (started s cur))
              # map (GenerateCalled (rid cur)) [0, 1] @ [StatusSet (rid cur) Error (requests ?f)])"
    by (rule blockOfI [OF refl]) (simp_all add: requests_started_other oth)
  then show ?thesis using pr ev by simp
qed

lemma processRequest_own:
  assumes "r \<in> set (requests (processRequest gen s cur))" "rid r = rid cur"
  shows "status r = Completed \<or> status r = Error"
proof (cases rule: processRequest_cases [of gen cur])
  case (first qs n)
  then show ?thesis
    using assms processRequest_first [of gen cur qs n s] own_setRequestsById [of r] by fastforce
next
  case (second e0 qs n)
  then show ?thesis
    using assms processRequest_second [of gen cur e0 qs n s] own_setRequestsById [of r] by fastforce
next
  case (failed e0 e1)
  then show ?thesis
    using assms processRequest_failed [of gen cur e0 e1 s] own_setRequestsById [of r] by fastforce
qed

lemma processRequest_other:
  assumes "r \<in> set (requests (processRequest gen s cur))" "rid r \<noteq> rid cur"
  shows "r \<in> set (requests s)"
proof (cases rule: processRequest_cases [of gen cur])
  case (first qs n)
  then show ?thesis
    using assms processRequest_first [of gen cur qs n s] other_setRequestsById [of r]
      requests_started_other [of r s cur] by fastforce
next
  case (second e0 qs n)
  then show ?thesis
    using assms processRequest_second [of gen cur e0 qs n s] other_setRequestsById [of r]
      requests_started_other [of r s cur] by fastforce
next
  case (failed e0 e1)
  then show ?thesis
    using assms processRequest_failed [of gen cur e0 e1 s] other_setRequestsById [of r]
      requests_started_other [of r s cur] by fastforce
qed

lemma oneAtATime_calls:
  "oneAtATime todo (Some i) (map (GenerateCalled i) calls @ evs) = oneAtATime todo (Some i) evs"
  by (induction calls) simp_all

lemma oneAtATime_block:
  assumes "blockOf i reqs blk"
  shows "oneAtATime (i # todo) None (blk @ evs) = oneAtATime todo None evs"
proof -
  from assms obtain snapP fin snapF calls where
    b: "blk = StatusSet i Processing snapP # map (GenerateCalled i) calls @ [StatusSet i fin snapF]"
       "fin = Completed \<or> fin = Error"
    unfolding blockOf_def by blast
  show ?thesis using b by (auto simp: oneAtATime_calls)
qed

lemma snapshots_calls [simp]: "snapshots (map (GenerateCalled i) calls) = []"
  by (induction calls) simp_all

lemma snapshots_block:
  assumes "blockOf i reqs blk" "snap \<in> set (snapshots blk)"
  shows "map rid snap = map rid reqs \<and> (\<forall>r \<in> set snap. rid r \<noteq> i \<longrightarrow> r \<in> set reqs)"
proof -
  from assms(1) obtain snapP fin snapF calls where
    b: "blk = StatusSet i Processing snapP # map (GenerateCalled i) calls @ [StatusSet i fin snapF]"
       "\<forall>snap \<in> {snapP, snapF}. map rid snap = map rid reqs \<and>
           (\<forall>r \<in> set snap. rid r \<noteq> i \<longrightarrow> r \<in> set reqs)"
    unfolding blockOf_def by blast
  from assms(2) b(1) have "snap \<in> {snapP, snapF}" by simp
  with b(2) show ?thesis by blast
qed

lemma filter_same_key:
  "distinct (map f xs) \<Longrightarrow> length (filter (\<lambda>x. f x = i) xs) \<le> 1"
proof (induction xs)
  case Nil
  then show ?case by simp
next
  case (Cons x xs)
  show ?case
  proof (cases "f x = i")
    case True
    with Cons.prems have "i \<notin> f ` set xs" by auto
    then have "filter (\<lambda>x. f x = i) xs = []" by (auto simp: filter_empty_conv)
    with True show ?thesis by simp
  next
    case False
    with Cons show ?thesis by simp
  qed
qed

lemma filter_length_mono:
  "(\<And>x. x \<in> set xs \<Longrightarrow> P x \<Longrightarrow> Q x) \<Longrightarrow> length (filter P xs) \<le> length (filter Q xs)"
  by (induction xs) auto

lemma processingOfRun_le:
  assumes "distinct (map rid snap)"
    "\<And>r. r \<in> set snap \<Longrightarrow> status r = Processing \<Longrightarrow> rid r \<in> set ids \<Longrightarrow> rid r = i"
  shows "length (processingOfRun ids snap) \<le> 1"
proof -
  have "length (processingOfRun ids snap) \<le> length (filter (\<lambda>r. rid r = i) snap)"
    unfolding processingOfRun_def using assms(2) by (intro filter_length_mono) blast
  also have "\<dots> \<le> 1" using assms(1) by (rule filter_same_key)
  finally show ?thesis .
qed

lemma run_in_order:
  "\<exists>evs. events (foldl (processRequest gen) s ts) = events s @ evs \<and>
         oneAtATime (map rid ts) None evs \<and>
         (distinct (map rid (requests s)) \<and> set (map rid ts) \<subseteq> set ids \<and>
            (\<forall>r \<in> set (requests s). rid r \<in> set ids \<longrightarrow> status r \<noteq> Processing)
          \<longrightarrow> (\<forall>snap \<in> set (snapshots evs). length (processingOfRun ids snap) \<le> 1))"
proof (induction ts arbitrary: s)
  case Nil
  then show ?case by simp
next
  case (Cons t ts)
  let ?s1 = "processRequest gen s t"
  obtain blk where blk: "events ?s1 = events s @ blk" "blockOf (rid t) (requests s) blk"
    using processRequest_block by blast
  from Cons.IH [of ?s1] obtain evs where
    evs: "events (foldl (processRequest gen) ?s1 ts) = events ?s1 @ evs"
      "oneAtATime (map rid ts) None evs"
      "distinct (map rid (requests ?s1)) \<and> set (map rid ts) \<subseteq> set ids \<and>
            (\<forall>r \<in> set (requests ?s1). rid r \<in> set ids \<longrightarrow> status r \<noteq> Processing)
          \<longrightarrow> (\<forall>snap \<in> set (snapshots evs). length (processingOfRun ids snap) \<le> 1)"
    by blast
  have e: "events (foldl (processRequest gen) s (t # ts)) = events s @ (blk @ evs)"
    using blk(1) evs(1) by simp
  have o: "oneAtATime (map rid (t # ts)) None (blk @ evs)"
    using oneAtATime_block [OF blk(2)] evs(2) by simp
  have p: "\<forall>snap \<in> set (snapshots (blk @ evs)). length (processingOfRun ids snap) \<le> 1"
    if d: "distinct (map rid (requests s))" and sub: "set (map rid (t # ts)) \<subseteq> set ids"
      and inv: "\<forall>r \<in> set (requests s). rid r \<in> set ids \<longrightarrow> status r \<noteq> Processing"
  proof -
    have inv1: "\<forall>r \<in> set (requests ?s1). rid r \<in> set ids \<longrightarrow> status r \<noteq> Processing"
    proof (intro ballI impI)
      fix r assume r: "r \<in> set (requests ?s1)" "rid r \<in> set ids"
      show "status r \<noteq> Processing"
      proof (cases "rid r = rid t")
        case True
        then show ?thesis using processRequest_own [OF r(1)] by auto
      next
        case False
        then show ?thesis using processRequest_other [OF r(1)] inv r(2) by blast
      qed
    qed
    have rest: "\<forall>snap \<in> set (snapshots evs). length (processingOfRun ids snap) \<le> 1"
      using evs(3) d sub inv1 by simp
    have here: "length (processingOfRun ids snap) \<le> 1" if "snap \<in> set (snapshots blk)" for snap
    proof (rule processingOfRun_le [where i = "rid t"])
      show "distinct (map rid snap)"
        using snapshots_block [OF blk(2) that] d by simp
    next
      fix r assume r: "r \<in> set snap" "status r = Processing" "rid r \<in> set ids"
      show "rid r = rid t"
      proof (rule ccontr)
        assume "rid r \<noteq> rid t"
        then have "r \<in> set (requests s)" using snapshots_block [OF blk(2) that] r(1) by blast
        then show False using inv r(2,3) by blast
      qed
    qed
    show ?thesis using rest here by auto
  qed
  show ?case using e o p by blast
qed


text \<open>
  C6, as stated, at a queue in which two pending requests carry the same id
  (\<^const>\<open>twinState\<close>). \<^verbatim>\<open>setRequests\<close> gives the new status to every request with the id of the
  current one, so both selected requests are in \<^const>\<open>Processing\<close> at the same time, once
  for each of the two.
\<close>

theorem processQueue_same_id_counterexample:
  "map rid (pendingOrErrorRequests twinState) = [''r1'', ''r1''] \<and>
   map (map status)
     (snapshots (newEvents twinState (processQueue (Some ''clave'') demoGen twinState)))
     = [[Processing, Processing], [Completed, Completed],
        [Processing, Processing], [Completed, Completed]] \<and>
   map (\<lambda>snap. length (processingOfRun [''r1'', ''r1''] snap))
     (snapshots (newEvents twinState (processQueue (Some ''clave'') demoGen twinState)))
     = [2, 0, 2, 0]"
  by code_simp

text \<open>
  C6, amended. A run of \<^const>\<open>processQueue\<close> with an API key handles the pending or failed requests
  one at a time in the order of the queue: its events are accepted by \<^const>\<open>oneAtATime\<close>,
  so the generation for a request is called only between the event that sets it to
  \<^const>\<open>Processing\<close> and the event that sets it to \<^const>\<open>Completed\<close> or \<^const>\<open>Error\<close>, and the
  next request is opened only after that. When the ids of the queue are distinct, no
  snapshot of the queue taken during the run has two selected requests in
  \<^const>\<open>Processing\<close>.
\<close>

theorem processQueue_one_at_a_time:
  assumes "apiKey = Some k" and "k \<noteq> []"
  shows "oneAtATime (map rid (pendingOrErrorRequests s)) None
           (newEvents s (processQueue apiKey gen s)) \<and>
         (distinct (map rid (requests s)) \<longrightarrow>
            (\<forall>snap \<in> set (snapshots (newEvents s (processQueue apiKey gen s))).
               length (processingOfRun (map rid (pendingOrErrorRequests s)) snap) \<le> 1))"
proof -
  let ?s0 = "s\<lparr>globalError := None, isProcessing := True\<rparr>"
  let ?ts = "pendingOrErrorRequests s"
  let ?ids = "map rid ?ts"
  obtain evs where
    evs: "events (foldl (processRequest gen) ?s0 ?ts) = events ?s0 @ evs"
      "oneAtATime ?ids None evs"
      "distinct (map rid (requests ?s0)) \<and> set (map rid ?ts) \<subseteq> set ?ids \<and>
            (\<forall>r \<in> set (requests ?s0). rid r \<in> set ?ids \<longrightarrow> status r \<noteq> Processing)
          \<longrightarrow> (\<forall>snap \<in> set (snapshots evs). length (processingOfRun ?ids snap) \<le> 1)"
    using run_in_order [of gen ?s0 ?ts ?ids] by blast
  have new: "newEvents s (processQueue apiKey gen s) = evs"
    using assms evs(1) by (simp add: processQueue_def newEvents_def)
  have inv: "\<forall>r \<in> set (requests s). rid r \<in> set ?ids \<longrightarrow> status r \<noteq> Processing"
    if d: "distinct (map rid (requests s))"
  proof (intro ballI impI)
    fix r assume r: "r \<in> set (requests s)" "rid r \<in> set ?ids"
    then obtain r' where r': "r' \<in> set ?ts" "rid r' = rid r" by auto
    then have "r' \<in> set (requests s)" "status r' = Pending \<or> status r' = Error"
      by (auto simp: pendingOrErrorRequests_def)
    moreover have "inj_on rid (set (requests s))" using d by (simp add: distinct_map)
    ultimately have "r' = r" using r(1) r'(2) by (auto dest: inj_onD)
    with \<open>status r' = Pending \<or> status r' = Error\<close> show "status r \<noteq> Processing" by auto
  qed
  show ?thesis using new evs(2,3) inv by simp
qed

theorem processQueue_one_at_a_time_witness:
  "distinct (map rid (requests demoState)) \<and>
   map rid (pendingOrErrorRequests demoState) = [''r1'', ''r3''] \<and>
   oneAtATime [''r1'', ''r3''] None (newEvents demoState (processQueue (Some ''clave'') demoGen demoState)) \<and>
   list_all (\<lambda>snap. length (processingOfRun [''r1'', ''r3''] snap) \<le> 1)
     (snapshots (newEvents demoState (processQueue (Some ''clave'') demoGen demoState)))"
  using processQueue_one_at_a_time [of "Some ''clave''" "''clave''" demoState demoGen]
  by (simp add: demo_defs list_all_iff pendingOrErrorRequests_def)


section \<open>Properties of the preview of the stream\<close>

subsection \<open>The two loops and the text they scan\<close>

lemma findValueStart_step:
  "i < length s \<Longrightarrow>
   findValueStart s i =
     (if s ! i = dq then (Some (i + 1), [i])
      else if \<not> isSeparator (s ! i) then (None, [i])
      else (case findValueStart s (i + 1) of (r, reads) \<Rightarrow> (r, i # reads)))"
  by (simp add: findValueStart.simps [of s i] isSeparator_def)

lemma findValueStart_end: "\<not> i < length s \<Longrightarrow> findValueStart s i = (None, [])"
  by (simp add: findValueStart.simps [of s i])

lemma findValueStart_spec:
  "fst (findValueStart s i) =
     (case dropWhile isSeparator (drop i s) of
        [] \<Rightarrow> None
      | c # rest \<Rightarrow> if c = dq then Some (length s - length rest) else None)"
proof (induction s i rule: findValueStart.induct)
  case (1 s i)
  show ?case
  proof (cases "i < length s")
    case False
    then show ?thesis by (simp add: findValueStart_end)
  next
    case True
    then have d: "drop i s = s ! i # drop (Suc i) s" by (simp add: Cons_nth_drop_Suc)
    show ?thesis
    proof (cases "s ! i = dq")
      case q: True
      have "\<not> isSeparator dq" by (simp add: isSeparator_def dq_def nl_def tab_def)
      then show ?thesis using True q d by (simp add: findValueStart_step)
    next
      case nq: False
      show ?thesis
      proof (cases "isSeparator (s ! i)")
        case sep: True
        then have "fst (findValueStart s i) = fst (findValueStart s (i + 1))"
          using True nq by (simp add: findValueStart_step split: prod.splits)
        also have "\<dots> = (case dropWhile isSeparator (drop (i + 1) s) of
              [] \<Rightarrow> None
            | c # rest \<Rightarrow> if c = dq then Some (length s - length rest) else None)"
        proof -
          have "\<not> (s ! i \<noteq> CHR '':'' \<and> s ! i \<noteq> CHR '' '' \<and> s ! i \<noteq> nl \<and> s ! i \<noteq> tab)"
            using sep by (simp add: isSeparator_def)
          from "1.IH" [OF True nq this] show ?thesis .
        qed
        finally show ?thesis using d sep by simp
      next
        case nsep: False
        then show ?thesis using True nq d
          by (simp add: findValueStart_step)
      qed
    qed
  qed
qed

lemma scanValue_end: "\<not> i < length s \<Longrightarrow> scanValue s i buf esc = (([], buf), [])"
  by (simp add: scanValue.simps [of s i])

lemma scanValue_fst:
  "i < length s \<Longrightarrow>
   fst (scanValue s i buf esc) =
     (if esc then fst (scanValue s (i + 1) (buf @ [s ! i]) False)
      else if s ! i = backslash then fst (scanValue s (i + 1) (buf @ [s ! i]) True)
      else if s ! i = dq then (buf, buf)
      else fst (scanValue s (i + 1) (buf @ [s ! i]) False))"
  by (simp add: scanValue.simps [of s i] split: prod.splits)

lemma scanValue_snd:
  "i < length s \<Longrightarrow>
   snd (scanValue s i buf esc) =
     (if esc then i # snd (scanValue s (i + 1) (buf @ [s ! i]) False)
      else if s ! i = backslash then i # snd (scanValue s (i + 1) (buf @ [s ! i]) True)
      else if s ! i = dq then [i]
      else i # snd (scanValue s (i + 1) (buf @ [s ! i]) False))"
  by (simp add: scanValue.simps [of s i] split: prod.splits)

lemma findValueStart_snd:
  "i < length s \<Longrightarrow>
   snd (findValueStart s i) =
     (if s ! i = dq then [i]
      else if \<not> isSeparator (s ! i) then [i]
      else i # snd (findValueStart s (i + 1)))"
  by (simp add: findValueStart_step split: prod.splits)

lemma scanValue_buffer:
  "snd (fst (scanValue s i buf esc)) = buf @ rawValue esc (drop i s)"
proof (induction s i buf esc rule: scanValue.induct)
  case (1 s i buf esc)
  show ?case
  proof (cases "i < length s")
    case False
    then show ?thesis by (simp add: scanValue_end)
  next
    case True
    then have d: "drop i s = s ! i # drop (Suc i) s" by (simp add: Cons_nth_drop_Suc)
    show ?thesis
    proof (cases esc)
      case e: True
      then show ?thesis using True d "1.IH"(1) by (simp add: scanValue_fst)
    next
      case ne: False
      show ?thesis
      proof (cases "s ! i = backslash")
        case b: True
        then show ?thesis using True d ne "1.IH"(2) by (simp add: scanValue_fst)
      next
        case nb: False
        show ?thesis
        proof (cases "s ! i = dq")
          case q: True
          then show ?thesis using True d ne nb by (simp add: scanValue_fst)
        next
          case nq: False
          then show ?thesis using True d ne nb "1.IH"(3) by (simp add: scanValue_fst)
        qed
      qed
    qed
  qed
qed

lemma scanValue_latest:
  "fst (fst (scanValue s i buf esc)) = [] \<or>
   fst (fst (scanValue s i buf esc)) = snd (fst (scanValue s i buf esc))"
proof (induction s i buf esc rule: scanValue.induct)
  case (1 s i buf esc)
  show ?case
  proof (cases "i < length s")
    case False
    then show ?thesis by (simp add: scanValue_end)
  next
    case True
    show ?thesis
    proof (cases esc)
      case e: True
      then show ?thesis using True "1.IH"(1) by (simp add: scanValue_fst)
    next
      case ne: False
      show ?thesis
      proof (cases "s ! i = backslash")
        case b: True
        then show ?thesis using True ne "1.IH"(2) by (simp add: scanValue_fst)
      next
        case nb: False
        show ?thesis
        proof (cases "s ! i = dq")
          case q: True
          then show ?thesis using True ne nb by (simp add: scanValue_fst)
        next
          case nq: False
          then show ?thesis using True ne nb "1.IH"(3) by (simp add: scanValue_fst)
        qed
      qed
    qed
  qed
qed

lemma dropWhile_suffix:
  assumes "dropWhile P (drop i s) = c # rest"
  shows "drop (length s - length rest) s = rest"
proof -
  let ?n = "length (takeWhile P (drop i s))"
  have "dropWhile P (drop i s) = drop ?n (drop i s)" by (rule dropWhile_eq_drop)
  then have e: "drop (?n + i) s = c # rest" using assms by simp
  then have lt: "?n + i < length s" by (metis drop_all list.distinct(1) not_le)
  have r: "rest = drop (Suc (?n + i)) s" using e by (metis drop_Suc list.sel(3) tl_drop)
  have "length rest = length s - Suc (?n + i)" using r by simp
  then have "length s - length rest = Suc (?n + i)" using lt by simp
  then show ?thesis using r by simp
qed

lemma latestPregunta_spec: "fst (latestPregunta text) = specLatest text"
proof (cases "lastIndexOf text keyMarker")
  case None
  then show ?thesis by (simp add: latestPregunta_def specLatest_def)
next
  case (Some k)
  let ?i = "k + length keyMarker"
  have lp: "fst (latestPregunta text) =
     (case fst (findValueStart text ?i) of
        None \<Rightarrow> []
      | Some v \<Rightarrow>
          (if fst (fst (scanValue text v [] False)) = [] \<and> snd (fst (scanValue text v [] False)) \<noteq> []
           then snd (fst (scanValue text v [] False)) else fst (fst (scanValue text v [] False))))"
  proof -
    obtain r reads1 where f: "findValueStart text ?i = (r, reads1)" by (cases "findValueStart text ?i")
    show ?thesis
    proof (cases r)
      case None
      then show ?thesis using Some f by (simp add: latestPregunta_def)
    next
      case v: (Some v)
      obtain a b reads2 where sv: "scanValue text v [] False = ((a, b), reads2)"
        by (cases "scanValue text v [] False") auto
      show ?thesis using Some f v sv by (simp add: latestPregunta_def)
    qed
  qed
  have sp: "specLatest text =
     (case dropWhile isSeparator (drop ?i text) of
        [] \<Rightarrow> []
      | c # rest \<Rightarrow> if c = dq then rawValue False rest else [])"
    using Some by (simp add: specLatest_def)
  show ?thesis
  proof (cases "dropWhile isSeparator (drop ?i text)")
    case Nil
    have "fst (findValueStart text ?i) = None"
      unfolding findValueStart_spec Nil by simp
    then show ?thesis unfolding lp sp Nil by simp
  next
    case (Cons c rest)
    show ?thesis
    proof (cases "c = dq")
      case False
      have "fst (findValueStart text ?i) = None"
        using False unfolding findValueStart_spec Cons by simp
      then show ?thesis using False unfolding lp sp Cons by simp
    next
      case True
      let ?v = "length text - length rest"
      have v: "fst (findValueStart text ?i) = Some ?v"
        using True unfolding findValueStart_spec Cons by simp
      have dr: "drop ?v text = rest" using Cons by (rule dropWhile_suffix)
      have buf: "snd (fst (scanValue text ?v [] False)) = rawValue False rest"
        using scanValue_buffer [of "text" "?v" "[]" False] dr by simp
      have "fst (latestPregunta text) = rawValue False rest"
        using buf scanValue_latest [of "text" "?v" "[]" False] unfolding lp v by auto
      then show ?thesis using True unfolding sp Cons by simp
    qed
  qed
qed


lemma findValueStart_reads:
  "\<exists>n. snd (findValueStart s i) = [i..<i + n] \<and> i + n \<le> max i (length s) \<and>
       (\<forall>v. fst (findValueStart s i) = Some v \<longrightarrow> v = i + n)"
proof (induction s i rule: findValueStart.induct)
  case (1 s i)
  show ?case
  proof (cases "i < length s")
    case False
    then have "snd (findValueStart s i) = [i..<i + 0] \<and> i + 0 \<le> max i (length s) \<and>
       (\<forall>v. fst (findValueStart s i) = Some v \<longrightarrow> v = i + 0)"
      by (simp add: findValueStart_end)
    then show ?thesis by blast
  next
    case True
    show ?thesis
    proof (cases "s ! i = dq \<or> \<not> isSeparator (s ! i)")
      case stop: True
      then have "snd (findValueStart s i) = [i..<i + 1] \<and> i + 1 \<le> max i (length s) \<and>
         (\<forall>v. fst (findValueStart s i) = Some v \<longrightarrow> v = i + 1)"
        using True by (auto simp: findValueStart_step)
      then show ?thesis by blast
    next
      case go: False
      then have c: "\<not> (s ! i \<noteq> CHR '':'' \<and> s ! i \<noteq> CHR '' '' \<and> s ! i \<noteq> nl \<and> s ! i \<noteq> tab)"
        by (simp add: isSeparator_def)
      from go have nq: "s ! i \<noteq> dq" by simp
      from "1.IH" [OF True nq c] obtain n where
        n: "snd (findValueStart s (i + 1)) = [i + 1..<i + 1 + n]" "i + 1 + n \<le> max (i + 1) (length s)"
           "\<forall>v. fst (findValueStart s (i + 1)) = Some v \<longrightarrow> v = i + 1 + n"
        by blast
      have f: "fst (findValueStart s i) = fst (findValueStart s (i + 1))"
        using True go by (simp add: findValueStart_step split: prod.splits)
      have r: "snd (findValueStart s i) = i # snd (findValueStart s (i + 1))"
        using True go by (simp add: findValueStart_snd)
      have "snd (findValueStart s i) = [i..<i + Suc n]"
        using r n(1) by (simp add: upt_conv_Cons)
      moreover have "i + Suc n \<le> max i (length s)" using n(2) True by simp
      moreover have "\<forall>v. fst (findValueStart s i) = Some v \<longrightarrow> v = i + Suc n"
        using f n(3) by simp
      ultimately show ?thesis by blast
    qed
  qed
qed

lemma scanValue_reads:
  "\<exists>n. snd (scanValue s i buf esc) = [i..<i + n] \<and> i + n \<le> max i (length s)"
proof (induction s i buf esc rule: scanValue.induct)
  case (1 s i buf esc)
  show ?case
  proof (cases "i < length s")
    case False
    then have "snd (scanValue s i buf esc) = [i..<i + 0] \<and> i + 0 \<le> max i (length s)"
      by (simp add: scanValue_end)
    then show ?thesis by blast
  next
    case True
    have step: "\<exists>n. snd (scanValue s i buf esc) = [i..<i + n] \<and> i + n \<le> max i (length s)"
      if r: "snd (scanValue s i buf esc) = i # snd (scanValue s (i + 1) b' e')"
        and ih: "\<exists>n. snd (scanValue s (i + 1) b' e') = [i + 1..<i + 1 + n] \<and>
                   i + 1 + n \<le> max (i + 1) (length s)"
      for b' e'
    proof -
      from ih obtain n where n: "snd (scanValue s (i + 1) b' e') = [i + 1..<i + 1 + n]"
        "i + 1 + n \<le> max (i + 1) (length s)" by blast
      have "snd (scanValue s i buf esc) = [i..<i + Suc n]" using r n(1) by (simp add: upt_conv_Cons)
      moreover have "i + Suc n \<le> max i (length s)" using n(2) True by simp
      ultimately show ?thesis by blast
    qed
    show ?thesis
    proof (cases esc)
      case e: True
      show ?thesis
        by (rule step [OF _ "1.IH"(1) [OF True e]]) (use True e in \<open>simp add: scanValue_snd\<close>)
    next
      case ne: False
      show ?thesis
      proof (cases "s ! i = backslash")
        case b: True
        show ?thesis
          by (rule step [OF _ "1.IH"(2) [OF True ne b]]) (use True ne b in \<open>simp add: scanValue_snd\<close>)
      next
        case nb: False
        show ?thesis
        proof (cases "s ! i = dq")
          case q: True
          then have "snd (scanValue s i buf esc) = [i..<i + 1] \<and> i + 1 \<le> max i (length s)"
            using True ne nb by (simp add: scanValue_snd)
          then show ?thesis by blast
        next
          case nq: False
          show ?thesis
            by (rule step [OF _ "1.IH"(3) [OF True ne nb nq]])
              (use True ne nb nq in \<open>simp add: scanValue_snd\<close>)
        qed
      qed
    qed
  qed
qed

lemma latestPregunta_reads:
  "sorted_wrt (<) (snd (latestPregunta s)) \<and> set (snd (latestPregunta s)) \<subseteq> {..<length s}"
proof (cases "lastIndexOf s keyMarker")
  case None
  then show ?thesis by (simp add: latestPregunta_def)
next
  case (Some k)
  let ?i = "k + length keyMarker"
  obtain r reads1 where f: "findValueStart s ?i = (r, reads1)" by (cases "findValueStart s ?i")
  obtain n where n: "reads1 = [?i..<?i + n]" "?i + n \<le> max ?i (length s)"
    "\<forall>v. r = Some v \<longrightarrow> v = ?i + n"
    using findValueStart_reads [of s ?i] f by auto
  have in1: "set reads1 \<subseteq> {..<length s}" using n(1,2) by auto
  show ?thesis
  proof (cases r)
    case None
    then have "snd (latestPregunta s) = reads1" using Some f by (simp add: latestPregunta_def)
    then show ?thesis using n(1) in1 by simp
  next
    case v: (Some v)
    obtain a b reads2 where sv: "scanValue s v [] False = ((a, b), reads2)"
      by (cases "scanValue s v [] False") auto
    obtain m where m: "reads2 = [v..<v + m]" "v + m \<le> max v (length s)"
      using scanValue_reads [of s v "[]" False] sv by auto
    have vv: "v = ?i + n" using n(3) v by simp
    have "snd (latestPregunta s) = reads1 @ reads2"
      using Some f v sv by (simp add: latestPregunta_def)
    also have "\<dots> = [?i..<v + m]"
      using n(1) m(1) vv by (simp add: upt_add_eq_append [symmetric])
    finally have e: "snd (latestPregunta s) = [?i..<v + m]" .
    have "set [?i..<v + m] \<subseteq> {..<length s}"
    proof (cases "?i < v + m")
      case True
      then have "v + m \<le> length s" using m(2) n(2) vv by (cases "m = 0") auto
      then show ?thesis by auto
    next
      case False
      then show ?thesis by simp
    qed
    then show ?thesis using e by simp
  qed
qed

lemma receiveStream_snoc:
  "receiveStream (cs @ [c]) st = receiveChunk (receiveStream cs st) c"
  by (simp add: receiveStream_def)

lemma currentRawStream_callback:
  "currentRawStream (setLiveStreamContentCallback c r st) = (if r then c else currentRawStream st @ c)"
  by (simp add: setLiveStreamContentCallback_def Let_def)

lemma preview_callback:
  "currentAnimatedPreviewText (setLiveStreamContentCallback c False st) =
     (if specLatest (currentRawStream st @ c) = [] then currentAnimatedPreviewText st
      else Some (previewMarkup (specLatest (currentRawStream st @ c))))"
  by (simp add: setLiveStreamContentCallback_def Let_def latestPregunta_spec)

lemma receiveStream_aggregate:
  "fst (receiveStream cs st) = concat cs \<and> currentRawStream (snd (receiveStream cs st)) = concat cs"
proof (induction cs rule: rev_induct)
  case Nil
  then show ?case by (simp add: receiveStream_def currentRawStream_callback)
next
  case (snoc c cs)
  obtain a st' where r: "receiveStream cs st = (a, st')" by (cases "receiveStream cs st")
  with snoc have "a = concat cs" "currentRawStream st' = concat cs" by simp_all
  then show ?case
    using r by (simp add: receiveStream_snoc receiveChunk_def currentRawStream_callback)
qed

lemma receiveStream_preview_step:
  "currentAnimatedPreviewText (snd (receiveStream (cs @ [c]) st)) =
     (if c = [] \<or> specLatest (concat (cs @ [c])) = []
      then currentAnimatedPreviewText (snd (receiveStream cs st))
      else Some (previewMarkup (specLatest (concat (cs @ [c])))))"
proof -
  obtain a st' where r: "receiveStream cs st = (a, st')" by (cases "receiveStream cs st")
  have raw: "currentRawStream st' = concat cs" using receiveStream_aggregate [of cs st] r by simp
  show ?thesis
    using r raw by (simp add: receiveStream_snoc receiveChunk_def preview_callback)
qed

subsection \<open>What the preview shows of the value\<close>

lemma replaceChar_Cons:
  "replaceChar c r (x # xs) = (if x = c then r else [x]) @ replaceChar c r xs"
  by (simp add: replaceChar_def)

lemma replaceChar_append:
  "replaceChar c r (xs @ ys) = replaceChar c r xs @ replaceChar c r ys"
  by (simp add: replaceChar_def)

lemma replaceChar_Nil [simp]: "replaceChar c r [] = []"
  by (simp add: replaceChar_def)

lemma escapedDisplayContent_Cons:
  "escapedDisplayContent (x # xs) = specEntity x @ escapedDisplayContent xs"
  by (simp add: escapedDisplayContent_def specEntity_def replaceChar_Cons replaceChar_append dq_def)

lemma escapedDisplayContent_spec: "escapedDisplayContent d = concat (map specEntity d)"
proof (induction d)
  case Nil
  then show ?case by (simp add: escapedDisplayContent_def)
next
  case (Cons x xs)
  then show ?case by (simp add: escapedDisplayContent_Cons)
qed

lemma displayContent_spec: "displayContent v = specShorten v"
  by (simp add: displayContent_def specShorten_def substring_def)

lemma previewMarkup_spec: "previewMarkup v = specPreview v"
  by (simp add: previewMarkup_def specPreview_def escapedDisplayContent_spec displayContent_spec)

lemma specShorten_length: "length (specShorten v) \<le> 70"
  by (simp add: specShorten_def)

text \<open>
  C3, as stated, at two streams. The chunks of \<^const>\<open>escapedQuoteChunks\<close> add up to a JSON array
  whose only \<^verbatim>\<open>Pregunta\<close> field has the string value \<^const>\<open>escapedQuoteValue\<close> (\<^verbatim>\<open>Di "hola"\<close>);
  the preview shows the characters as they stand in the stream, backslashes included
  (\<^const>\<open>escapedQuoteRaw\<close>), and not that value. In \<^const>\<open>markerValueChunk\<close> the only \<^verbatim>\<open>Pregunta\<close>
  field has the value \<^verbatim>\<open>Q1\<close>, but the last \<^verbatim>\<open>"Pregunta"\<close> of the text is the value of the id, no
  quote follows it, and no preview is written.
\<close>

theorem preview_raw_counterexample:
  "fst (receiveStream escapedQuoteChunks initialPreview) = concat escapedQuoteChunks \<and>
   currentAnimatedPreviewText (snd (receiveStream escapedQuoteChunks initialPreview))
     = Some (''Pregunta [<span class='' @ [CHR 0x22] @ ''text-blue-400 font-semibold'' @ [CHR 0x22] @
             ''>Di '' @ [CHR 0x5C] @ ''&quot;hola'' @ [CHR 0x5C] @ ''&quot;</span>] generada!'') \<and>
   currentAnimatedPreviewText (snd (receiveStream escapedQuoteChunks initialPreview))
     = Some (specPreview escapedQuoteRaw) \<and>
   currentAnimatedPreviewText (snd (receiveStream escapedQuoteChunks initialPreview))
     \<noteq> Some (specPreview escapedQuoteValue) \<and>
   specPreview escapedQuoteValue
     = ''Pregunta [<span class='' @ [CHR 0x22] @ ''text-blue-400 font-semibold'' @ [CHR 0x22] @
       ''>Di &quot;hola&quot;</span>] generada!'' \<and>
   currentAnimatedPreviewText (snd (receiveStream [markerValueChunk] initialPreview)) = None"
  by code_simp

text \<open>
  C3, amended. After each chunk the aggregated text and \<^const>\<open>currentRawStream\<close> are the
  concatenation of the chunks so far. After a chunk with a text the preview is
  \<^const>\<open>specPreview\<close> of \<^const>\<open>specLatest\<close> of the aggregated text, when that is not empty:
  the characters, as they stand, between the opening quote that follows the last
  \<^verbatim>\<open>"Pregunta"\<close> and the next double quote that is not escaped (or the end of the text), cut
  to 67 characters and \<^verbatim>\<open>...\<close> when longer than 70, so never more than 70 characters, and
  written with HTML entities. Otherwise the preview stays as it was. The last two lines
  are the stream of \<^const>\<open>longValueChunk\<close>.
\<close>

theorem receiveStream_preview:
  "fst (receiveStream (take n chunks) st) = concat (take n chunks) \<and>
   currentRawStream (snd (receiveStream (take n chunks) st)) = concat (take n chunks) \<and>
   currentAnimatedPreviewText (snd (receiveStream (take (Suc n) chunks) st)) =
     (if n < length chunks \<and> chunks ! n \<noteq> [] \<and> specLatest (concat (take (Suc n) chunks)) \<noteq> []
      then Some (specPreview (specLatest (concat (take (Suc n) chunks))))
      else currentAnimatedPreviewText (snd (receiveStream (take n chunks) st))) \<and>
   length (specShorten (specLatest (concat (take (Suc n) chunks)))) \<le> 70 \<and>
   currentAnimatedPreviewText (snd (receiveStream [longValueChunk] initialPreview))
     = Some (''Pregunta [<span class='' @ [CHR 0x22] @ ''text-blue-400 font-semibold'' @ [CHR 0x22] @
             ''>a&lt;b &amp; c&gt;d '' @ replicate 57 (CHR ''x'') @ ''...</span>] generada!'')"
proof -
  have long: "currentAnimatedPreviewText (snd (receiveStream [longValueChunk] initialPreview))
     = Some (''Pregunta [<span class='' @ [CHR 0x22] @ ''text-blue-400 font-semibold'' @ [CHR 0x22] @
             ''>a&lt;b &amp; c&gt;d '' @ replicate 57 (CHR ''x'') @ ''...</span>] generada!'')"
    by code_simp
  have main: "fst (receiveStream (take n chunks) st) = concat (take n chunks) \<and>
   currentRawStream (snd (receiveStream (take n chunks) st)) = concat (take n chunks) \<and>
   currentAnimatedPreviewText (snd (receiveStream (take (Suc n) chunks) st)) =
     (if n < length chunks \<and> chunks ! n \<noteq> [] \<and> specLatest (concat (take (Suc n) chunks)) \<noteq> []
      then Some (specPreview (specLatest (concat (take (Suc n) chunks))))
      else currentAnimatedPreviewText (snd (receiveStream (take n chunks) st)))"
  proof (cases "n < length chunks")
    case True
    then have t: "take (Suc n) chunks = take n chunks @ [chunks ! n]"
      by (simp add: take_Suc_conv_app_nth)
    show ?thesis
      using True receiveStream_aggregate [of "take n chunks" st]
        receiveStream_preview_step [of "take n chunks" "chunks ! n" st]
      unfolding t previewMarkup_spec by auto
  next
    case False
    then show ?thesis using receiveStream_aggregate [of "take n chunks" st] by simp
  qed
  show ?thesis using main long specShorten_length by simp
qed

section \<open>Properties of the correction loop\<close>

subsection \<open>The passes of the loop\<close>

lemma correctionLoop_done:
  "\<not> k < MAX_JSON_CORRECTION_ATTEMPTS \<Longrightarrow>
   correctionLoop e p k raw err = (Inl (finalErrorMessage p err raw), [])"
  by (simp add: correctionLoop.simps [of e p k])

lemma correctionLoop_abort:
  "k < MAX_JSON_CORRECTION_ATTEMPTS \<Longrightarrow> rawOutput (runAttempt e k raw err) = None \<Longrightarrow>
   correctionLoop e p k raw err = (Inl substringOfUndefined, [runAttempt e k raw err])"
  by (simp add: correctionLoop.simps [of e p k] Let_def)

lemma correctionLoop_success:
  "k < MAX_JSON_CORRECTION_ATTEMPTS \<Longrightarrow> rawOutput (runAttempt e k raw err) = Some t \<Longrightarrow>
   outcome (runAttempt e k raw err) = Inr qs \<Longrightarrow>
   correctionLoop e p k raw err = (Inr (t, qs, k), [runAttempt e k raw err])"
  by (simp add: correctionLoop.simps [of e p k] Let_def)

lemma correctionLoop_retry:
  "k < MAX_JSON_CORRECTION_ATTEMPTS \<Longrightarrow> rawOutput (runAttempt e k raw err) = Some t \<Longrightarrow>
   outcome (runAttempt e k raw err) = Inl msg \<Longrightarrow>
   correctionLoop e p k raw err
   = (fst (correctionLoop e p (Suc k) t (Some msg)),
      runAttempt e k raw err # snd (correctionLoop e p (Suc k) t (Some msg)))"
  by (simp add: correctionLoop.simps [of e p k] Let_def split: prod.splits)

lemma attemptNo_runAttempt [simp]: "attemptNo (runAttempt e k raw err) = k"
  by (simp add: runAttempt_def Let_def split: sum.splits option.splits)

lemma sentPrompt_runAttempt:
  "sentPrompt (runAttempt e k raw err) =
     (if k > 0 then Some (constructJsonCorrectionPrompt raw (errorForReprompt err)) else None)"
  by (simp add: runAttempt_def Let_def split: sum.splits option.splits)

lemma runAttempt_undefined:
  "rawOutput (runAttempt e k raw err) = None \<Longrightarrow>
   outcome (runAttempt e k raw err) = Inl lengthOfUndefined"
  by (auto simp: runAttempt_def Let_def split: sum.splits option.splits if_splits)

text \<open>The passes of the loop, one after the other.\<close>

lemma correctionLoop_passes:
  "length (snd (correctionLoop e p k raw err)) \<le> MAX_JSON_CORRECTION_ATTEMPTS - k \<and>
   map attemptNo (snd (correctionLoop e p k raw err))
     = [k..<k + length (snd (correctionLoop e p k raw err))]"
proof (induction e p k raw err rule: correctionLoop.induct)
  case (1 e p k raw err)
  show ?case
  proof (cases "k < MAX_JSON_CORRECTION_ATTEMPTS")
    case False
    then show ?thesis by (simp add: correctionLoop_done)
  next
    case True
    let ?a = "runAttempt e k raw err"
    show ?thesis
    proof (cases "rawOutput ?a")
      case None
      then show ?thesis using True by (simp add: correctionLoop_abort)
    next
      case (Some t)
      show ?thesis
      proof (cases "outcome ?a")
        case (Inr qs)
        then show ?thesis using True Some by (simp add: correctionLoop_success)
      next
        case (Inl msg)
        from "1.IH" [OF True refl Some Inl]
        have ih: "length (snd (correctionLoop e p (Suc k) t (Some msg)))
                    \<le> MAX_JSON_CORRECTION_ATTEMPTS - Suc k"
          "map attemptNo (snd (correctionLoop e p (Suc k) t (Some msg)))
             = [Suc k..<Suc k + length (snd (correctionLoop e p (Suc k) t (Some msg)))]"
          by simp_all
        let ?rest = "snd (correctionLoop e p (Suc k) t (Some msg))"
        have s: "snd (correctionLoop e p k raw err) = ?a # ?rest"
          using True Some Inl by (simp add: correctionLoop_retry)
        have l: "length (?a # ?rest) \<le> MAX_JSON_CORRECTION_ATTEMPTS - k"
          using ih(1) True by simp
        have "[k..<k + length (?a # ?rest)] = k # [Suc k..<Suc k + length ?rest]"
          by (simp add: upt_conv_Cons del: upt_Suc)
        then have m: "map attemptNo (?a # ?rest) = [k..<k + length (?a # ?rest)]"
          using ih(2) by (simp del: upt_Suc)
        show ?thesis unfolding s using l m by blast
      qed
    qed
  qed
qed

lemma correctionLoop_first:
  "k < MAX_JSON_CORRECTION_ATTEMPTS \<Longrightarrow>
   snd (correctionLoop e p k raw err) \<noteq> [] \<and>
   hd (snd (correctionLoop e p k raw err)) = runAttempt e k raw err"
proof (cases "rawOutput (runAttempt e k raw err)")
  case None
  assume "k < MAX_JSON_CORRECTION_ATTEMPTS"
  then show ?thesis using None by (simp add: correctionLoop_abort)
next
  case (Some t)
  assume "k < MAX_JSON_CORRECTION_ATTEMPTS"
  then show ?thesis using Some
    by (cases "outcome (runAttempt e k raw err)")
      (simp_all add: correctionLoop_retry correctionLoop_success)
qed

lemma correctionLoop_chain:
  "Suc j < length (snd (correctionLoop e p k raw err)) \<Longrightarrow>
   (\<exists>msg t. outcome (snd (correctionLoop e p k raw err) ! j) = Inl msg \<and>
      rawOutput (snd (correctionLoop e p k raw err) ! j) = Some t \<and>
      snd (correctionLoop e p k raw err) ! Suc j = runAttempt e (k + Suc j) t (Some msg))"
proof (induction e p k raw err arbitrary: j rule: correctionLoop.induct)
  case (1 e p k raw err)
  show ?case
  proof (cases "k < MAX_JSON_CORRECTION_ATTEMPTS")
    case False
    then show ?thesis using "1.prems" by (simp add: correctionLoop_done)
  next
    case True
    let ?a = "runAttempt e k raw err"
    show ?thesis
    proof (cases "rawOutput ?a")
      case None
      then show ?thesis using True "1.prems" by (simp add: correctionLoop_abort)
    next
      case (Some t)
      show ?thesis
      proof (cases "outcome ?a")
        case (Inr qs)
        then show ?thesis using True Some "1.prems" by (simp add: correctionLoop_success)
      next
        case (Inl msg)
        let ?rest = "snd (correctionLoop e p (Suc k) t (Some msg))"
        have s: "snd (correctionLoop e p k raw err) = ?a # ?rest"
          using True Some Inl by (simp add: correctionLoop_retry)
        show ?thesis
        proof (cases j)
          case 0
          then have ne: "?rest \<noteq> []" using "1.prems" s by auto
          then have "Suc k < MAX_JSON_CORRECTION_ATTEMPTS"
            using correctionLoop_done [of "Suc k" e p t "Some msg"] by fastforce
          then have "hd ?rest = runAttempt e (Suc k) t (Some msg)"
            by (simp add: correctionLoop_first)
          then have "?rest ! 0 = runAttempt e (Suc k) t (Some msg)"
            using ne by (simp add: hd_conv_nth)
          then show ?thesis unfolding s using 0 Inl Some by simp
        next
          case (Suc j')
          then have "Suc j' < length ?rest" using "1.prems" s by simp
          from "1.IH" [OF True refl Some Inl this] show ?thesis unfolding s using Suc by simp
        qed
      qed
    qed
  qed
qed

lemma correctionLoop_result:
  "(case fst (correctionLoop e p k raw err) of
      Inr (rawText, qs, n) \<Rightarrow>
        snd (correctionLoop e p k raw err) \<noteq> [] \<and>
        outcome (last (snd (correctionLoop e p k raw err))) = Inr qs \<and>
        rawOutput (last (snd (correctionLoop e p k raw err))) = Some rawText \<and>
        n = attemptNo (last (snd (correctionLoop e p k raw err)))
    | Inl m \<Rightarrow>
        (\<forall>a \<in> set (snd (correctionLoop e p k raw err)). isl (outcome a)) \<and>
        (k + length (snd (correctionLoop e p k raw err)) = max k MAX_JSON_CORRECTION_ATTEMPTS \<or>
         snd (correctionLoop e p k raw err) \<noteq> [] \<and>
         rawOutput (last (snd (correctionLoop e p k raw err))) = None))"
proof (induction e p k raw err rule: correctionLoop.induct)
  case (1 e p k raw err)
  show ?case
  proof (cases "k < MAX_JSON_CORRECTION_ATTEMPTS")
    case False
    then show ?thesis by (simp add: correctionLoop_done)
  next
    case True
    let ?a = "runAttempt e k raw err"
    show ?thesis
    proof (cases "rawOutput ?a")
      case None
      then show ?thesis using True runAttempt_undefined [OF None]
        by (simp add: correctionLoop_abort)
    next
      case (Some t)
      show ?thesis
      proof (cases "outcome ?a")
        case (Inr qs)
        then show ?thesis using True Some by (simp add: correctionLoop_success)
      next
        case (Inl msg)
        let ?next = "correctionLoop e p (Suc k) t (Some msg)"
        have s: "correctionLoop e p k raw err = (fst ?next, ?a # snd ?next)"
          using True Some Inl by (simp add: correctionLoop_retry)
        note ih = "1.IH" [OF True refl Some Inl]
        show ?thesis
        proof (cases "fst ?next")
          case l: (Inl m)
          then show ?thesis unfolding s using ih Inl True by auto
        next
          case r: (Inr u)
          obtain rawText qs n where u: "u = (rawText, qs, n)" by (cases u)
          show ?thesis unfolding s using ih r u by auto
        qed
      qed
    qed
  qed
qed

text \<open>A pass that leaves \<^verbatim>\<open>lastGeminiRawOutput\<close> undefined is the last one, and the call throws.\<close>

lemma correctionLoop_last_undefined:
  "snd (correctionLoop e p k raw err) \<noteq> [] \<Longrightarrow>
   rawOutput (last (snd (correctionLoop e p k raw err))) = None \<Longrightarrow>
   fst (correctionLoop e p k raw err) = Inl substringOfUndefined"
proof (induction e p k raw err rule: correctionLoop.induct)
  case (1 e p k raw err)
  show ?case
  proof (cases "k < MAX_JSON_CORRECTION_ATTEMPTS")
    case False
    then show ?thesis using "1.prems" by (simp add: correctionLoop_done)
  next
    case True
    let ?a = "runAttempt e k raw err"
    show ?thesis
    proof (cases "rawOutput ?a")
      case None
      then show ?thesis using True by (simp add: correctionLoop_abort)
    next
      case (Some t)
      show ?thesis
      proof (cases "outcome ?a")
        case (Inr qs)
        then show ?thesis using True Some "1.prems" by (simp add: correctionLoop_success)
      next
        case (Inl msg)
        let ?next = "correctionLoop e p (Suc k) t (Some msg)"
        have s: "correctionLoop e p k raw err = (fst ?next, ?a # snd ?next)"
          using True Some Inl by (simp add: correctionLoop_retry)
        have ne: "snd ?next \<noteq> []"
          using "1.prems" Some unfolding s by (cases "snd ?next = []") simp_all
        then have "rawOutput (last (snd ?next)) = None" using "1.prems"(2) unfolding s by simp
        from "1.IH" [OF True refl Some Inl ne this] show ?thesis unfolding s by simp
      qed
    qed
  qed
qed

lemma trim_Nil [simp]: "trim [] = []"
  by (simp add: trim_def)

lemma nonBlankText_Some:
  "nonBlankText v = Some s \<Longrightarrow> v = Some (JStr s) \<and> trim s \<noteq> []"
  by (auto simp: nonBlankText_def split: option.splits json.splits if_splits)

lemma validateItem_Inr:
  assumes "validateItem e k i item = Inr q"
  shows "nonBlankText (getProp item key_Pregunta) = Some (Pregunta q) \<and>
         nonBlankText (getProp item key_Opcion_correcta_1) = Some (Opcion_correcta_1 q) \<and>
         q = questionEntry e k i item (Pregunta q) (Opcion_correcta_1 q)"
proof -
  from assms obtain p where p: "nonBlankText (getProp item key_Pregunta) = Some p"
    by (cases "nonBlankText (getProp item key_Pregunta)")
      (auto simp: validateItem_def split: if_splits)
  from assms p obtain c1 where c: "nonBlankText (getProp item key_Opcion_correcta_1) = Some c1"
    by (cases "nonBlankText (getProp item key_Opcion_correcta_1)")
      (auto simp: validateItem_def split: if_splits)
  from assms p c have "q = questionEntry e k i item p c1"
    by (auto simp: validateItem_def split: if_splits)
  then show ?thesis using p c by (simp add: questionEntry_def)
qed

lemma validateItems_nth:
  "validateItems e k i0 items = Inr qs \<Longrightarrow>
   length qs = length items \<and>
   (\<forall>j < length items. validateItem e k (i0 + j) (items ! j) = Inr (qs ! j))"
proof (induction items arbitrary: i0 qs)
  case Nil
  then show ?case by simp
next
  case (Cons item items)
  from Cons.prems obtain q qs' where
    q: "validateItem e k i0 item = Inr q" "validateItems e k (Suc i0) items = Inr qs'" "qs = q # qs'"
    by (auto split: sum.splits)
  from Cons.IH [OF q(2)] have ih: "length qs' = length items"
    "\<forall>j < length items. validateItem e k (Suc i0 + j) (items ! j) = Inr (qs' ! j)"
    by simp_all
  have "validateItem e k (i0 + j) ((item # items) ! j) = Inr (qs ! j)" if "j < length (item # items)" for j
  proof (cases j)
    case 0
    then show ?thesis using q by simp
  next
    case (Suc j')
    then show ?thesis using ih(2) q(3) that by simp
  qed
  then show ?case using ih(1) q(3) by simp
qed

lemma parseAndValidate_Inr:
  assumes "parseAndValidate e k raw = Inr qs"
  shows "\<exists>items. jsonParse e (stripFence raw) = Inr (JArr items) \<and>
                validateItems e k 0 items = Inr qs"
proof -
  from assms obtain parsedData where p: "jsonParse e (stripFence raw) = Inr parsedData"
    by (auto simp: parseAndValidate_def Let_def split: sum.splits)
  from assms p obtain items where i: "parsedData = JArr items"
    by (auto simp: parseAndValidate_def Let_def split: json.splits)
  from assms p i have "validateItems e k 0 items = Inr qs"
    by (auto simp: parseAndValidate_def Let_def split: sum.splits if_splits)
  with p i show ?thesis by blast
qed

text \<open>
  When an answer passes: its text, trimmed and without a surrounding code fence, is parsed
  to an array, every item of the array is accepted, and an array without items was
  written exactly as \<^verbatim>\<open>[]\<close>.
\<close>

lemma parseAndValidate_success_iff:
  "parseAndValidate e k raw = Inr qs \<longleftrightarrow>
     (\<exists>items. jsonParse e (stripFence raw) = Inr (JArr items) \<and>
        validateItems e k 0 items = Inr qs \<and>
        (items = [] \<longrightarrow> trim (stripFence raw) = [] \<or> trim (stripFence raw) = ''[]''))"
proof
  assume a: "parseAndValidate e k raw = Inr qs"
  from parseAndValidate_Inr [OF a] obtain items where
    i: "jsonParse e (stripFence raw) = Inr (JArr items)" "validateItems e k 0 items = Inr qs"
    by blast
  have "items = [] \<longrightarrow> trim (stripFence raw) = [] \<or> trim (stripFence raw) = ''[]''"
    using a i by (auto simp: parseAndValidate_def Let_def split: if_splits)
  with i show "\<exists>items. jsonParse e (stripFence raw) = Inr (JArr items) \<and>
        validateItems e k 0 items = Inr qs \<and>
        (items = [] \<longrightarrow> trim (stripFence raw) = [] \<or> trim (stripFence raw) = ''[]'')"
    by blast
next
  assume "\<exists>items. jsonParse e (stripFence raw) = Inr (JArr items) \<and>
        validateItems e k 0 items = Inr qs \<and>
        (items = [] \<longrightarrow> trim (stripFence raw) = [] \<or> trim (stripFence raw) = ''[]'')"
  then obtain items where
    i: "jsonParse e (stripFence raw) = Inr (JArr items)" "validateItems e k 0 items = Inr qs"
       "items = [] \<longrightarrow> trim (stripFence raw) = [] \<or> trim (stripFence raw) = ''[]''"
    by blast
  have len: "length qs = length items" using validateItems_nth [OF i(2)] by simp
  show "parseAndValidate e k raw = Inr qs"
  proof (cases "items = []")
    case True
    then have "qs = []" using len by simp
    then show ?thesis using True i by (auto simp: parseAndValidate_def Let_def)
  next
    case False
    then have "qs \<noteq> []" using len by auto
    then show ?thesis using False i by (simp add: parseAndValidate_def Let_def)
  qed
qed

lemma runAttempt_outcome:
  "rawOutput (runAttempt e k raw err) = Some t \<Longrightarrow>
   (outcome (runAttempt e k raw err) = Inr qs \<longrightarrow>
      trim t \<noteq> [] \<and> parseAndValidate e k t = Inr qs) \<and>
   (trim t = [] \<or> isl (parseAndValidate e k t) \<longrightarrow> isl (outcome (runAttempt e k raw err)))"
  by (auto simp: runAttempt_def Let_def split: sum.splits option.splits if_splits)

text \<open>The first pass examines the aggregated text; a later pass what the model answers.\<close>

lemma runAttempt_first:
  "rawOutput (runAttempt e 0 raw err) = Some raw \<and>
   outcome (runAttempt e 0 raw err)
     = (if trim raw = [] then Inl emptyResponseMessage else parseAndValidate e 0 raw)"
  by (simp add: runAttempt_def)

lemma runAttempt_later:
  "0 < k \<Longrightarrow>
   (case generateContent e k (constructJsonCorrectionPrompt raw (errorForReprompt err)) of
      Inl m \<Rightarrow> rawOutput (runAttempt e k raw err) = Some raw \<and>
               outcome (runAttempt e k raw err) = Inl m
    | Inr None \<Rightarrow> rawOutput (runAttempt e k raw err) = None
    | Inr (Some t) \<Rightarrow>
        rawOutput (runAttempt e k raw err) = Some t \<and>
        outcome (runAttempt e k raw err)
          = (if trim t = [] then Inl emptyResponseMessage else parseAndValidate e k t))"
  by (simp add: runAttempt_def Let_def split: sum.splits option.splits)

lemma pass_is_runAttempt:
  assumes "j < length (snd (correctionLoop e p k raw err))"
  shows "\<exists>raw' err'. snd (correctionLoop e p k raw err) ! j = runAttempt e (k + j) raw' err'"
proof (cases j)
  case 0
  have "k < MAX_JSON_CORRECTION_ATTEMPTS"
    using assms correctionLoop_done [of k e p raw err] by fastforce
  from correctionLoop_first [OF this, of e p raw err]
  have "snd (correctionLoop e p k raw err) ! j = runAttempt e (k + j) raw err"
    using 0 by (cases "snd (correctionLoop e p k raw err)") auto
  then show ?thesis by blast
next
  case (Suc j')
  then show ?thesis using correctionLoop_chain [of j' e p k raw err] assms by blast
qed


lemma prompt_contains:
  "\<exists>pre mid post.
     constructJsonCorrectionPrompt raw (errorForReprompt (Some msg)) = pre @ msg @ mid @ raw @ post"
proof (cases "msg = []")
  case True
  then have "constructJsonCorrectionPrompt raw (errorForReprompt (Some msg))
      = (correctionPromptHead @ unknownParseError) @ msg @ correctionPromptMiddle @ raw @ correctionPromptTail"
    by (simp add: constructJsonCorrectionPrompt_def errorForReprompt_def)
  then show ?thesis by blast
next
  case False
  then have "constructJsonCorrectionPrompt raw (errorForReprompt (Some msg))
      = correctionPromptHead @ msg @ correctionPromptMiddle @ raw @ correctionPromptTail"
    by (simp add: constructJsonCorrectionPrompt_def errorForReprompt_def)
  then show ?thesis by blast
qed

text \<open>
  The run of the loop from the first pass. The passes are numbered from 0 and there are
  at most \<^const>\<open>MAX_JSON_CORRECTION_ATTEMPTS\<close>; the first examines the aggregated text and every
  later one what the model answers to the correction prompt, which is built from the text
  and the message the pass before has left; the call returns the questions of the last
  pass when that succeeds, and throws when every pass has failed: after
  \<^const>\<open>MAX_JSON_CORRECTION_ATTEMPTS\<close> passes, or at the pass that leaves \<^verbatim>\<open>lastGeminiRawOutput\<close>
  undefined.
\<close>

lemma loop_summary:
  assumes "correctionLoop e p 0 raw None = (res, passes)"
  shows "length passes \<le> MAX_JSON_CORRECTION_ATTEMPTS \<and>
     (\<forall>j < length passes.
        attemptNo (passes ! j) = j \<and>
        (\<forall>t. rawOutput (passes ! j) = Some t \<longrightarrow>
           (trim t = [] \<or> isl (parseAndValidate e j t) \<longrightarrow> isl (outcome (passes ! j))) \<and>
           (\<forall>qs. outcome (passes ! j) = Inr qs \<longrightarrow>
              trim t \<noteq> [] \<and> parseAndValidate e j t = Inr qs)) \<and>
        (rawOutput (passes ! j) = None \<longrightarrow> outcome (passes ! j) = Inl lengthOfUndefined)) \<and>
     (\<forall>j. Suc j < length passes \<longrightarrow>
        (\<exists>msg t. outcome (passes ! j) = Inl msg \<and> rawOutput (passes ! j) = Some t \<and>
           sentPrompt (passes ! Suc j)
             = Some (constructJsonCorrectionPrompt t (errorForReprompt (Some msg))) \<and>
           (\<exists>pre mid post.
              constructJsonCorrectionPrompt t (errorForReprompt (Some msg))
                = pre @ msg @ mid @ t @ post) \<and>
           (case generateContent e (Suc j)
                   (constructJsonCorrectionPrompt t (errorForReprompt (Some msg))) of
              Inl m \<Rightarrow> rawOutput (passes ! Suc j) = Some t \<and> outcome (passes ! Suc j) = Inl m
            | Inr None \<Rightarrow> rawOutput (passes ! Suc j) = None
            | Inr (Some t') \<Rightarrow>
                rawOutput (passes ! Suc j) = Some t' \<and>
                outcome (passes ! Suc j)
                  = (if trim t' = [] then Inl emptyResponseMessage
                     else parseAndValidate e (Suc j) t')))) \<and>
     (\<forall>rawText qs n. res = Inr (rawText, qs, n) \<longleftrightarrow>
        passes \<noteq> [] \<and> outcome (last passes) = Inr qs \<and>
        rawOutput (last passes) = Some rawText \<and> n = length passes - 1) \<and>
     (isl res \<longleftrightarrow> (\<forall>a \<in> set passes. isl (outcome a))) \<and>
     passes \<noteq> [] \<and> sentPrompt (hd passes) = None \<and> rawOutput (hd passes) = Some raw \<and>
     outcome (hd passes)
       = (if trim raw = [] then Inl emptyResponseMessage else parseAndValidate e 0 raw) \<and>
     (isl res \<longrightarrow>
        length passes = MAX_JSON_CORRECTION_ATTEMPTS \<or> rawOutput (last passes) = None) \<and>
     (rawOutput (last passes) = None \<longrightarrow> res = Inl substringOfUndefined)"
proof -
  have ps: "passes = snd (correctionLoop e p 0 raw None)" and rs: "res = fst (correctionLoop e p 0 raw None)"
    using assms by simp_all
  have len: "length passes \<le> MAX_JSON_CORRECTION_ATTEMPTS"
    and nos: "map attemptNo passes = [0..<length passes]"
    using correctionLoop_passes [of e p 0 raw None] ps by simp_all
  have no: "attemptNo (passes ! j) = j" if "j < length passes" for j
  proof -
    have "map attemptNo passes ! j = [0..<length passes] ! j" using nos by simp
    then show ?thesis using that by simp
  qed
  have pass: "(\<forall>t. rawOutput (passes ! j) = Some t \<longrightarrow>
           (trim t = [] \<or> isl (parseAndValidate e j t) \<longrightarrow> isl (outcome (passes ! j))) \<and>
           (\<forall>qs. outcome (passes ! j) = Inr qs \<longrightarrow>
              trim t \<noteq> [] \<and> parseAndValidate e j t = Inr qs)) \<and>
        (rawOutput (passes ! j) = None \<longrightarrow> outcome (passes ! j) = Inl lengthOfUndefined)"
    if lt: "j < length passes" for j
  proof -
    obtain raw' err' where r: "passes ! j = runAttempt e j raw' err'"
      using pass_is_runAttempt [of j e p 0 raw None] lt ps by auto
    have u: "rawOutput (passes ! j) = None \<longrightarrow> outcome (passes ! j) = Inl lengthOfUndefined"
      unfolding r using runAttempt_undefined [of e j raw' err'] by blast
    have "(trim t = [] \<or> isl (parseAndValidate e j t) \<longrightarrow> isl (outcome (passes ! j))) \<and>
           (\<forall>qs. outcome (passes ! j) = Inr qs \<longrightarrow>
              trim t \<noteq> [] \<and> parseAndValidate e j t = Inr qs)"
      if "rawOutput (passes ! j) = Some t" for t
      using that runAttempt_outcome [of e j raw' err' t] unfolding r by blast
    then show ?thesis using u by blast
  qed
  have chain: "\<exists>msg t. outcome (passes ! j) = Inl msg \<and> rawOutput (passes ! j) = Some t \<and>
           sentPrompt (passes ! Suc j)
             = Some (constructJsonCorrectionPrompt t (errorForReprompt (Some msg))) \<and>
           (\<exists>pre mid post.
              constructJsonCorrectionPrompt t (errorForReprompt (Some msg))
                = pre @ msg @ mid @ t @ post) \<and>
           (case generateContent e (Suc j)
                   (constructJsonCorrectionPrompt t (errorForReprompt (Some msg))) of
              Inl m \<Rightarrow> rawOutput (passes ! Suc j) = Some t \<and> outcome (passes ! Suc j) = Inl m
            | Inr None \<Rightarrow> rawOutput (passes ! Suc j) = None
            | Inr (Some t') \<Rightarrow>
                rawOutput (passes ! Suc j) = Some t' \<and>
                outcome (passes ! Suc j)
                  = (if trim t' = [] then Inl emptyResponseMessage
                     else parseAndValidate e (Suc j) t'))"
    if lt: "Suc j < length passes" for j
  proof -
    obtain msg t where m: "outcome (passes ! j) = Inl msg" "rawOutput (passes ! j) = Some t"
      "passes ! Suc j = runAttempt e (Suc j) t (Some msg)"
      using correctionLoop_chain [of j e p 0 raw None] lt ps by auto
    have sp: "sentPrompt (passes ! Suc j)
             = Some (constructJsonCorrectionPrompt t (errorForReprompt (Some msg)))"
      using m(3) by (simp add: sentPrompt_runAttempt)
    have pc: "\<exists>pre mid post.
              constructJsonCorrectionPrompt t (errorForReprompt (Some msg))
                = pre @ msg @ mid @ t @ post"
      by (rule prompt_contains)
    have la: "case generateContent e (Suc j)
                   (constructJsonCorrectionPrompt t (errorForReprompt (Some msg))) of
              Inl m \<Rightarrow> rawOutput (passes ! Suc j) = Some t \<and> outcome (passes ! Suc j) = Inl m
            | Inr None \<Rightarrow> rawOutput (passes ! Suc j) = None
            | Inr (Some t') \<Rightarrow>
                rawOutput (passes ! Suc j) = Some t' \<and>
                outcome (passes ! Suc j)
                  = (if trim t' = [] then Inl emptyResponseMessage
                     else parseAndValidate e (Suc j) t')"
      unfolding m(3) using runAttempt_later [of "Suc j" e t "Some msg"] by simp
    show ?thesis using m(1,2) sp pc la by blast
  qed
  have k0: "0 < MAX_JSON_CORRECTION_ATTEMPTS" by (simp add: MAX_JSON_CORRECTION_ATTEMPTS_def)
  have first: "passes \<noteq> []" "hd passes = runAttempt e 0 raw None"
    using correctionLoop_first [OF k0, of e p raw None] ps by simp_all
  have f1: "sentPrompt (hd passes) = None" using first(2) by (simp add: sentPrompt_runAttempt)
  have f2: "rawOutput (hd passes) = Some raw" using first(2) runAttempt_first [of e raw None] by simp
  have f3: "outcome (hd passes)
       = (if trim raw = [] then Inl emptyResponseMessage else parseAndValidate e 0 raw)"
    using first(2) runAttempt_first [of e raw None] by simp
  have lastno: "attemptNo (last passes) = length passes - 1"
    using first(1) no [of "length passes - 1"] by (simp add: last_conv_nth)
  note result = correctionLoop_result [of e p 0 raw None, folded ps rs]
  have ok: "res = Inr (rawText, qs, n) \<longleftrightarrow>
        passes \<noteq> [] \<and> outcome (last passes) = Inr qs \<and>
        rawOutput (last passes) = Some rawText \<and> n = length passes - 1" for rawText qs n
  proof (cases res)
    case (Inl m)
    then have "\<forall>a \<in> set passes. isl (outcome a)" using result by simp
    then have "isl (outcome (last passes))" using first(1) by simp
    then show ?thesis using Inl by auto
  next
    case (Inr u)
    obtain r' qs' n' where u: "u = (r', qs', n')" by (cases u)
    then show ?thesis using Inr result lastno by auto
  qed
  have bad: "isl res \<longleftrightarrow> (\<forall>a \<in> set passes. isl (outcome a))"
  proof (cases res)
    case (Inl m)
    then show ?thesis using result by simp
  next
    case (Inr u)
    obtain r' qs' n' where u: "u = (r', qs', n')" by (cases u)
    then have "outcome (last passes) = Inr qs'" using Inr result by simp
    moreover have "last passes \<in> set passes" using first(1) by simp
    ultimately have "\<not> (\<forall>a \<in> set passes. isl (outcome a))" by force
    then show ?thesis using Inr by simp
  qed
  have full: "isl res \<longrightarrow>
        length passes = MAX_JSON_CORRECTION_ATTEMPTS \<or> rawOutput (last passes) = None"
  proof (cases res)
    case (Inl m)
    then show ?thesis using result by auto
  next
    case (Inr u)
    then show ?thesis by simp
  qed
  have undef: "rawOutput (last passes) = None \<longrightarrow> res = Inl substringOfUndefined"
    using correctionLoop_last_undefined [of e p 0 raw None] first(1) ps rs by simp
  show ?thesis
    using len no pass chain ok bad first(1) f1 f2 f3 full undef by blast
qed


lemma generate_cases:
  assumes "generateQuestionsFromGemini e apiKey requestPrompt chunks streamError st = ((res, passes), st')"
  shows "(apiKey = [] \<or> streamError \<noteq> None) \<and> isl res \<and> passes = [] \<or>
         apiKey \<noteq> [] \<and> streamError = None \<and>
         correctionLoop e requestPrompt 0 (concat chunks) None = (res, passes)"
proof (cases "apiKey = []")
  case True
  then show ?thesis using assms by (auto simp: generateQuestionsFromGemini_def)
next
  case False
  obtain a s1 where r: "receiveStream chunks st = (a, s1)" by (cases "receiveStream chunks st")
  then have a: "a = concat chunks" using receiveStream_aggregate [of chunks st] by simp
  show ?thesis
  proof (cases streamError)
    case None
    then show ?thesis using assms False r a by (simp add: generateQuestionsFromGemini_def)
  next
    case (Some m)
    then show ?thesis using assms False r by (auto simp: generateQuestionsFromGemini_def)
  qed
qed

text \<open>The call, with an API key and a stream that ends, is the loop on the aggregated text.\<close>

lemma generateQuestionsFromGemini_run:
  "generateQuestionsFromGemini e apiKey requestPrompt chunks streamError st =
     (if apiKey = [] then ((Inl noApiKeyForService, []), st)
      else (case streamError of
              Some msg \<Rightarrow> ((Inl msg, []), snd (receiveStream chunks st))
            | None \<Rightarrow> (correctionLoop e requestPrompt 0 (concat chunks) None,
                       snd (receiveStream chunks st))))"
proof -
  obtain a s1 where r: "receiveStream chunks st = (a, s1)" by (cases "receiveStream chunks st")
  then have a: "a = concat chunks" using receiveStream_aggregate [of chunks st] by simp
  show ?thesis using r a by (simp add: generateQuestionsFromGemini_def split: option.splits)
qed

lemma demoRun_eval:
  "fst (fst demoRun) = Inr (demoFencedAnswer, [demoParsedQuestion], 2) \<and>
   map attemptNo (snd (fst demoRun)) = [0, 1, 2] \<and>
   map (\<lambda>a. isl (outcome a)) (snd (fst demoRun)) = [True, True, False] \<and>
   map rawOutput (snd (fst demoRun)) = [Some (concat demoChunks), Some '' '', Some demoFencedAnswer] \<and>
   length (snd (fst demoRun)) = 3"
  by code_simp

text \<open>
  C1, at a response without text. The stream of \<^const>\<open>demoChunks\<close> ends in the middle of
  the array, so the first pass fails and the correction prompt is sent. When the model
  answers it with a blank text (\<^const>\<open>demoRun\<close>), the guard
  \<^verbatim>\<open>!lastGeminiRawOutput || lastGeminiRawOutput.trim() === ''\<close> counts the pass as failed and a
  new correction prompt, with the message of the empty answer, is sent. When the response
  carries no text at all (\<^const>\<open>noTextRun\<close>), the log entry before that guard throws, the
  \<^verbatim>\<open>catch\<close> block throws in its turn, and the call ends after two passes with that
  \<^verbatim>\<open>TypeError\<close>: no correction prompt follows the failed pass, and fewer than
  \<^const>\<open>MAX_JSON_CORRECTION_ATTEMPTS\<close> passes have been made.
\<close>

theorem generateQuestionsFromGemini_undefined_text:
  "noTextRun = generateQuestionsFromGemini noTextEnv ''clave'' ''tema'' demoChunks None initialPreview \<and>
   fst (fst noTextRun) = Inl substringOfUndefined \<and>
   map attemptNo (snd (fst noTextRun)) = [0, 1] \<and>
   map rawOutput (snd (fst noTextRun)) = [Some (concat demoChunks), None] \<and>
   map outcome (snd (fst noTextRun)) = [Inl ''Unexpected end of JSON input'', Inl lengthOfUndefined] \<and>
   sentPrompt (snd (fst noTextRun) ! 1)
     = Some (constructJsonCorrectionPrompt (concat demoChunks) ''Unexpected end of JSON input'') \<and>
   length (snd (fst noTextRun)) < MAX_JSON_CORRECTION_ATTEMPTS \<and>
   map rawOutput (snd (fst demoRun)) = [Some (concat demoChunks), Some '' '', Some demoFencedAnswer] \<and>
   sentPrompt (snd (fst demoRun) ! 2)
     = Some (constructJsonCorrectionPrompt '' '' emptyResponseMessage) \<and>
   fst (fst demoRun) = Inr (demoFencedAnswer, [demoParsedQuestion], 2)"
proof -
  have d: "noTextRun = generateQuestionsFromGemini noTextEnv ''clave'' ''tema'' demoChunks None initialPreview"
    by (simp add: noTextRun_def)
  have r: "fst (fst noTextRun) = Inl substringOfUndefined" by code_simp
  have n: "map attemptNo (snd (fst noTextRun)) = [0, 1]" by code_simp
  have t: "map rawOutput (snd (fst noTextRun)) = [Some (concat demoChunks), None]" by code_simp
  have c: "map outcome (snd (fst noTextRun)) = [Inl ''Unexpected end of JSON input'', Inl lengthOfUndefined]"
    by code_simp
  have p1: "sentPrompt (snd (fst noTextRun) ! 1)
     = Some (constructJsonCorrectionPrompt (concat demoChunks) ''Unexpected end of JSON input'')"
    by code_simp
  have l: "length (snd (fst noTextRun)) < MAX_JSON_CORRECTION_ATTEMPTS" by code_simp
  have p2: "sentPrompt (snd (fst demoRun) ! 2)
     = Some (constructJsonCorrectionPrompt '' '' emptyResponseMessage)"
    by code_simp
  show ?thesis using d r n t c p1 l p2 demoRun_eval by simp
qed

subsection \<open>The questions returned\<close>

lemma finalId_cases:
  "(\<forall>s. v = Some (JStr s) \<and> trim s \<noteq> [] \<longrightarrow> finalId e k i v = s) \<and>
   ((\<forall>s. v = Some (JStr s) \<longrightarrow> trim s = []) \<longrightarrow> finalId e k i v = ''gen-'' @ newIdStamp e k i) \<and>
   finalId e k i v \<noteq> []"
  by (auto simp: finalId_def nonBlankText_def split: option.splits json.splits)

text \<open>
  C8. Every question returned by a successful call of \<^const>\<open>generateQuestionsFromGemini\<close> has
  a \<^verbatim>\<open>Pregunta\<close> and an \<^verbatim>\<open>'Opci\'on correcta 1'\<close> that are not blank, an \<^verbatim>\<open>Explicaci\'on\<close> that
  is a string (the empty one when the item of the model has none or \<^verbatim>\<open>null\<close>), and an id
  that is not empty: the id of the item when that is a string that is not blank, and
  otherwise a new id that starts with \<^verbatim>\<open>gen-\<close>.
\<close>

theorem parsedQuestions_valid:
  assumes "generateQuestionsFromGemini e apiKey requestPrompt chunks streamError st
             = ((Inr (rawText, parsedQuestions, n), passes), st')"
    and "q \<in> set parsedQuestions"
  shows "trim (Pregunta q) \<noteq> [] \<and> trim (Opcion_correcta_1 q) \<noteq> [] \<and>
         Explicacion q \<noteq> None \<and> qid q \<noteq> [] \<and>
         (\<exists>items i. jsonParse e (stripFence rawText) = Inr (JArr items) \<and> i < length items \<and>
            getProp (items ! i) key_Pregunta = Some (JStr (Pregunta q)) \<and>
            getProp (items ! i) key_Opcion_correcta_1 = Some (JStr (Opcion_correcta_1 q)) \<and>
            Explicacion q = Some (itemExplicacion (getProp (items ! i) key_Explicacion)) \<and>
            (getProp (items ! i) key_Explicacion = None \<or>
             getProp (items ! i) key_Explicacion = Some JNull \<longrightarrow> Explicacion q = Some []) \<and>
            (\<forall>s. getProp (items ! i) key_id = Some (JStr s) \<and> trim s \<noteq> [] \<longrightarrow> qid q = s) \<and>
            ((\<forall>s. getProp (items ! i) key_id = Some (JStr s) \<longrightarrow> trim s = []) \<longrightarrow>
               qid q = ''gen-'' @ newIdStamp e n i))"
proof -
  let ?res = "Inr (rawText, parsedQuestions, n) :: string + string \<times> QuestionData list \<times> nat"
  have loop: "correctionLoop e requestPrompt 0 (concat chunks) None = (?res, passes)"
    using generate_cases [OF assms(1)] by auto
  note sm = loop_summary [OF loop]
  from sm have ok: "passes \<noteq> []" "outcome (last passes) = Inr parsedQuestions"
    "rawOutput (last passes) = Some rawText" "n = length passes - 1"
    by blast+
  have lt: "n < length passes" using ok(1,4) by simp
  have lst: "last passes = passes ! n" using ok(1,4) by (simp add: last_conv_nth)
  from sm lt have "\<forall>t. rawOutput (passes ! n) = Some t \<longrightarrow>
           (\<forall>qs. outcome (passes ! n) = Inr qs \<longrightarrow> parseAndValidate e n t = Inr qs)" by blast
  then have pv: "parseAndValidate e n rawText = Inr parsedQuestions"
    using ok(2,3) lst by simp
  from parseAndValidate_Inr [OF pv] obtain items where
    items: "jsonParse e (stripFence rawText) = Inr (JArr items)"
      "validateItems e n 0 items = Inr parsedQuestions"
    by blast
  from validateItems_nth [OF items(2)] have vi: "length parsedQuestions = length items"
    "\<forall>j < length items. validateItem e n (0 + j) (items ! j) = Inr (parsedQuestions ! j)"
    by simp_all
  from assms(2) obtain i where i: "i < length parsedQuestions" "parsedQuestions ! i = q"
    by (auto simp: in_set_conv_nth)
  then have v: "validateItem e n i (items ! i) = Inr q" using vi by simp
  note f = validateItem_Inr [OF v]
  from f have p: "getProp (items ! i) key_Pregunta = Some (JStr (Pregunta q))" "trim (Pregunta q) \<noteq> []"
    using nonBlankText_Some by blast+
  from f have c: "getProp (items ! i) key_Opcion_correcta_1 = Some (JStr (Opcion_correcta_1 q))"
    "trim (Opcion_correcta_1 q) \<noteq> []"
    using nonBlankText_Some by blast+
  from f have qe: "q = questionEntry e n i (items ! i) (Pregunta q) (Opcion_correcta_1 q)" by simp
  have ex: "Explicacion q = Some (itemExplicacion (getProp (items ! i) key_Explicacion))"
    by (subst qe) (simp add: questionEntry_def)
  have id: "qid q = finalId e n i (getProp (items ! i) key_id)"
    by (subst qe) (simp add: questionEntry_def)
  have ex0: "getProp (items ! i) key_Explicacion = None \<or>
             getProp (items ! i) key_Explicacion = Some JNull \<longrightarrow> Explicacion q = Some []"
    using ex by (auto simp: itemExplicacion_def)
  note fid = finalId_cases [of "getProp (items ! i) key_id" e n i, folded id]
  have il: "i < length items" using i(1) vi(1) by simp
  show ?thesis
    using p c ex ex0 fid il items(1) by blast
qed
theorem parsedQuestions_valid_witness:
  "generateQuestionsFromGemini demoEnv ''clave'' ''tema'' demoChunks None initialPreview
     = ((Inr (demoFencedAnswer, [demoParsedQuestion], 2), snd (fst demoRun)), snd demoRun) \<and>
   demoParsedQuestion \<in> set [demoParsedQuestion] \<and>
   trim (Pregunta demoParsedQuestion) \<noteq> [] \<and>
   trim (Opcion_correcta_1 demoParsedQuestion) \<noteq> [] \<and>
   Explicacion demoParsedQuestion = Some [] \<and>
   qid demoParsedQuestion = ''gen-'' @ newIdStamp demoEnv 2 0"
proof -
  have "fst (fst demoRun) = Inr (demoFencedAnswer, [demoParsedQuestion], 2)"
    using demoRun_eval by simp
  then have run: "generateQuestionsFromGemini demoEnv ''clave'' ''tema'' demoChunks None initialPreview
     = ((Inr (demoFencedAnswer, [demoParsedQuestion], 2), snd (fst demoRun)), snd demoRun)"
    by (metis demoRun_def prod.collapse)
  have mem: "demoParsedQuestion \<in> set [demoParsedQuestion]" by simp
  have ev: "Explicacion demoParsedQuestion = Some [] \<and>
            qid demoParsedQuestion = ''gen-'' @ newIdStamp demoEnv 2 0"
    by (simp add: demoParsedQuestion_def demoEnv_def)
  show ?thesis
    using parsedQuestions_valid [OF run mem] run ev by simp
qed

subsection \<open>Termination\<close>

text \<open>
  C4. Both loops end on every input: \<^const>\<open>correctionLoop\<close> and the two scanning loops are
  total functions (their termination is proved where they are defined). The correction
  loop started with the counter at \<open>k\<close> makes at most \<^const>\<open>MAX_JSON_CORRECTION_ATTEMPTS\<close>
  minus \<open>k\<close> passes, and the counter goes up by one in every pass, the pass of a blank
  answer included. The two loops of the scanning pass read the characters of the text at
  strictly increasing indices, so each at most once (what \<^verbatim>\<open>lastIndexOf\<close> does inside the
  engine is not among these reads).
\<close>

theorem loops_terminate:
  "length (snd (correctionLoop e p k raw err)) \<le> MAX_JSON_CORRECTION_ATTEMPTS - k \<and>
   map attemptNo (snd (correctionLoop e p k raw err))
     = [k..<k + length (snd (correctionLoop e p k raw err))] \<and>
   sorted_wrt (<) (snd (latestPregunta s)) \<and> distinct (snd (latestPregunta s)) \<and>
   set (snd (latestPregunta s)) \<subseteq> {..<length s}"
  using correctionLoop_passes [of e p k raw err] latestPregunta_reads [of s]
    strict_sorted_iff [of "snd (latestPregunta s)"]
  by simp

end
